theory Spec2Isabelle
  imports Main "HOL-Library.Multiset"
begin

section \<open>JavaScript values used by the chat timeline\<close>

text \<open>
  The message objects of \<^verbatim>\<open>ChatTerminal.jsx\<close> are untyped: an id, a task id or a
  timestamp may be \<^verbatim>\<open>undefined\<close>, \<^verbatim>\<open>null\<close>, a number, a string or a \<^verbatim>\<open>Date\<close>.
  Numbers are modelled as mathematical integers (the ids, task ordinals and millisecond
  times of this program), a \<^verbatim>\<open>Date\<close> as its millisecond time value; invalid \<^verbatim>\<open>Date\<close>
  objects are never created by the program and are not modelled.
\<close>

datatype jsval = JUndefined | JNull | JBool bool | JNum int | JStr string | JDate int

fun truthy :: "jsval \<Rightarrow> bool" where
  "truthy JUndefined = False"
| "truthy JNull = False"
| "truthy (JBool b) = b"
| "truthy (JNum n) = (n \<noteq> 0)"
| "truthy (JStr s) = (s \<noteq> [])"
| "truthy (JDate d) = True"

text \<open>The operator \<^verbatim>\<open>a || b\<close>.\<close>

definition js_or :: "jsval \<Rightarrow> jsval \<Rightarrow> jsval" where
  "js_or a b = (if truthy a then a else b)"

subsection \<open>\<^verbatim>\<open>parseInt\<close> without a radix\<close>

definition isWhiteSpace :: "char \<Rightarrow> bool" where
  "isWhiteSpace c = (let n = (of_char c :: nat) in (9 \<le> n \<and> n \<le> 13) \<or> n = 32)"

definition digitVal :: "char \<Rightarrow> nat option" where
  "digitVal c =
     (let n = (of_char c :: nat) in
      if 48 \<le> n \<and> n \<le> 57 then Some (n - 48)
      else if 97 \<le> n \<and> n \<le> 122 then Some (n - 87)
      else if 65 \<le> n \<and> n \<le> 90 then Some (n - 55)
      else None)"

fun digitsPrefix :: "nat \<Rightarrow> string \<Rightarrow> nat list" where
  "digitsPrefix radix [] = []"
| "digitsPrefix radix (c # cs) =
     (case digitVal c of
        None \<Rightarrow> []
      | Some d \<Rightarrow> (if d < radix then d # digitsPrefix radix cs else []))"

definition parseIntStr :: "string \<Rightarrow> int option" where
  "parseIntStr s =
     (let s1 = dropWhile isWhiteSpace s;
          (sign, s2) = (case s1 of
                          c # r \<Rightarrow> (if c = CHR ''-'' then (- 1 :: int, r)
                                    else if c = CHR ''+'' then (1, r) else (1, s1))
                        | [] \<Rightarrow> (1, s1));
          (radix, s3) = (case s2 of
                           c # x # r \<Rightarrow> (if c = CHR ''0'' \<and> (x = CHR ''x'' \<or> x = CHR ''X'')
                                         then (16 :: nat, r) else (10, s2))
                         | _ \<Rightarrow> (10, s2));
          ds = digitsPrefix radix s3
      in if ds = [] then None
         else Some (sign * int (foldl (\<lambda>a d. a * radix + d) 0 ds)))"

text \<open>
  \<^verbatim>\<open>parseInt(v)\<close> first converts \<^verbatim>\<open>v\<close> to a string. The strings of \<^verbatim>\<open>undefined\<close>,
  \<^verbatim>\<open>null\<close>, a boolean and a \<^verbatim>\<open>Date\<close> start with a letter, so the result is \<^verbatim>\<open>NaN\<close>
  (\<open>None\<close>); the string of an integer is its decimal numeral, which parses back to it.
\<close>

fun parseInt :: "jsval \<Rightarrow> int option" where
  "parseInt (JStr s) = parseIntStr s"
| "parseInt (JNum n) = Some n"
| "parseInt JUndefined = None"
| "parseInt JNull = None"
| "parseInt (JBool b) = None"
| "parseInt (JDate d) = None"

section \<open>Messages\<close>

record message =
  id' :: jsval
  sender :: string
  text' :: jsval
  timestamp :: jsval
  taskId :: jsval
  taskTitle :: jsval
  taskStatus :: jsval
  agentId :: jsval
  progressPercent :: jsval
  isThinking :: bool
  isError :: bool

subsection \<open>\<^verbatim>\<open>chatUtils.js\<close>: \<^verbatim>\<open>ensureDate\<close>\<close>

text \<open>
  \<^verbatim>\<open>new Date(s)\<close> on a string is the runtime's date parser, taken as the parameter
  \<open>dateParse\<close> (\<open>None\<close>: an invalid date). \<^verbatim>\<open>new Date(n)\<close> on a number is valid
  within 8.64e15 ms of the epoch. \<open>now\<close> is the reading of the client clock;
  one synchronous call reads one time.
\<close>

definition ensureDate :: "(string \<Rightarrow> int option) \<Rightarrow> int \<Rightarrow> jsval \<Rightarrow> jsval" where
  "ensureDate dateParse now val =
     (case val of
        JDate d \<Rightarrow> JDate d
      | JStr s \<Rightarrow> (case dateParse s of Some d \<Rightarrow> JDate d | None \<Rightarrow> JDate now)
      | JNum n \<Rightarrow> (if \<bar>n\<bar> \<le> 8640000000000000 then JDate n else JDate now)
      | _ \<Rightarrow> JDate now)"

section \<open>The insertion-ordered \<^verbatim>\<open>Map\<close>\<close>

text \<open>
  A JavaScript \<^verbatim>\<open>Map\<close> iterates in insertion order; \<^verbatim>\<open>set\<close> on a present key
  replaces the value in place, on a new key appends.
\<close>

fun map_set :: "'k \<Rightarrow> 'v \<Rightarrow> ('k \<times> 'v) list \<Rightarrow> ('k \<times> 'v) list" where
  "map_set k v [] = [(k, v)]"
| "map_set k v (e # m) = (if fst e = k then (k, v) # m else e # map_set k v m)"

definition map_get :: "'k \<Rightarrow> ('k \<times> 'v) list \<Rightarrow> 'v option" where
  "map_get k m = map_of m k"

definition new_Map :: "('k \<times> 'v) list \<Rightarrow> ('k \<times> 'v) list" where
  "new_Map entries = foldl (\<lambda>m e. map_set (fst e) (snd e) m) [] entries"

definition map_values :: "('k \<times> 'v) list \<Rightarrow> 'v list" where
  "map_values m = map snd m"

text \<open>\<^verbatim>\<open>xs.slice(-n)\<close>: the last \<open>n\<close> elements, all of them when there are fewer.\<close>

definition slice_last :: "nat \<Rightarrow> 'a list \<Rightarrow> 'a list" where
  "slice_last n xs = drop (length xs - n) xs"

section \<open>\<^verbatim>\<open>ChatTerminal.jsx\<close>: \<^verbatim>\<open>upsertMessages\<close>\<close>

text \<open>The sort key \<^verbatim>\<open>parseInt(a.taskId) || 0\<close>.\<close>

definition taskKey :: "message \<Rightarrow> int" where
  "taskKey a = (case parseInt (taskId a) of
                  None \<Rightarrow> 0
                | Some n \<Rightarrow> (if n \<noteq> 0 then n else 0))"

text \<open>
  The body of \<^verbatim>\<open>incoming.forEach\<close>; an element of \<open>incoming\<close> is \<open>None\<close> when it is
  \<^verbatim>\<open>null\<close> or \<^verbatim>\<open>undefined\<close>.
\<close>

definition upsert_one ::
  "(string \<Rightarrow> int option) \<Rightarrow> int \<Rightarrow> bool \<Rightarrow> (jsval \<times> message) list \<Rightarrow> message option
     \<Rightarrow> (jsval \<times> message) list" where
  "upsert_one dateParse now restampNew m msgo =
     (case msgo of
        None \<Rightarrow> m
      | Some msg \<Rightarrow>
          if id' msg = JUndefined \<or> id' msg = JNull then m
          else
            let ts0 = ensureDate dateParse now (timestamp msg);
                ts = (if restampNew
                      then (case map_get (id' msg) m of
                              Some existing \<Rightarrow> timestamp existing
                            | None \<Rightarrow> JDate now)
                      else ts0)
            in map_set (id' msg) (msg\<lparr>timestamp := ts\<rparr>) m)"

text \<open>
  \<^verbatim>\<open>Array.prototype.sort\<close> is stable; with the comparator
  \<^verbatim>\<open>taskIdA - taskIdB\<close> it is the stable sort by \<open>taskKey\<close>.
\<close>

definition sortByTask :: "message list \<Rightarrow> message list" where
  "sortByTask xs = sort_key taskKey xs"

definition merged ::
  "(string \<Rightarrow> int option) \<Rightarrow> int \<Rightarrow> message option list \<Rightarrow> bool \<Rightarrow> message list
     \<Rightarrow> (jsval \<times> message) list" where
  "merged dateParse now incoming restampNew prev =
     foldl (upsert_one dateParse now restampNew)
           (new_Map (map (\<lambda>msg. (id' msg, msg)) prev)) incoming"

definition upsertMessages ::
  "(string \<Rightarrow> int option) \<Rightarrow> int \<Rightarrow> message option list \<Rightarrow> bool \<Rightarrow> message list
     \<Rightarrow> message list" where
  "upsertMessages dateParse now incoming restampNew prev =
     (if incoming = [] then prev
      else
        let m = merged dateParse now incoming restampNew prev;
            sortedMessages = sortByTask (map_values m)
        in slice_last 50 sortedMessages)"

text \<open>
  Two earlier variants of the component, kept in the repository, differ from the one
  above in the comparator only: they sort by \<^verbatim>\<open>a.timestamp.getTime() - b.timestamp.getTime()\<close>.
  Every stored timestamp is a \<^verbatim>\<open>Date\<close>; \<open>getTime\<close> of anything else is left at 0 here.
\<close>

definition getTime :: "jsval \<Rightarrow> int" where
  "getTime v = (case v of JDate d \<Rightarrow> d | _ \<Rightarrow> 0)"

definition sortByTimestamp :: "message list \<Rightarrow> message list" where
  "sortByTimestamp xs = sort_key (\<lambda>a. getTime (timestamp a)) xs"

section \<open>\<^verbatim>\<open>chatUtils.js\<close>: \<^verbatim>\<open>buildAgentMessage\<close>\<close>

record raw_task =
  rt_id :: jsval
  rt_title :: jsval
  rt_status :: jsval

record raw_item =
  item_id :: jsval
  item_agent_id :: jsval
  item_message :: jsval
  item_timestamp :: jsval
  item_progress_percent :: jsval
  item_task :: "raw_task option"
  item_task_id :: jsval

text \<open>An item is \<open>None\<close> when it is falsy (\<^verbatim>\<open>null\<close>, for instance).\<close>

definition buildAgentMessage ::
  "(string \<Rightarrow> int option) \<Rightarrow> int \<Rightarrow> raw_item option \<Rightarrow> message option" where
  "buildAgentMessage dateParse now item =
     (case item of
        None \<Rightarrow> None
      | Some it \<Rightarrow>
          if \<not> truthy (item_id it) then None
          else Some \<lparr>
            id' = item_id it,
            sender = ''agent'',
            text' = js_or (item_message it) (JStr []),
            timestamp = ensureDate dateParse now (item_timestamp it),
            taskId = js_or (case item_task it of None \<Rightarrow> JUndefined | Some t \<Rightarrow> rt_id t)
                           (item_task_id it),
            taskTitle = (case item_task it of None \<Rightarrow> JUndefined | Some t \<Rightarrow> rt_title t),
            taskStatus = (case item_task it of None \<Rightarrow> JUndefined | Some t \<Rightarrow> rt_status t),
            agentId = js_or (item_agent_id it) (JStr ''unknown''),
            progressPercent = item_progress_percent it,
            isThinking = False,
            isError = False \<rparr>)"

section \<open>\<^verbatim>\<open>ChatTerminal.jsx\<close>: the component state and \<^verbatim>\<open>fetchAgentResponses\<close>\<close>

text \<open>
  An exception is its name and its message. A fetch either rejects (a network error) or
  resolves to a response: its \<^verbatim>\<open>content-type\<close> header, its \<^verbatim>\<open>ok\<close> flag and what
  \<^verbatim>\<open>response.json()\<close> gives (a rejection when the body does not parse).
\<close>

datatype exn = Exn (exn_name: string) (exn_message: string)

datatype 'b fetch_result =
    Rejected exn
  | Response "string option" bool "exn + 'b"

record responses_body =
  rb_detail :: "string option"
  rb_messages :: "raw_item option list option"

record send_body =
  sb_detail :: "string option"
  message_id :: jsval
  task_id :: jsval

text \<open>
  \<open>lastFetchTimeRef\<close> holds \<^verbatim>\<open>null\<close> or the ISO string of a time; the string is
  represented by the time it renders.
\<close>

record chat_state =
  messages :: "message list"
  lastFetchTimeRef :: "int option"
  historyError :: "string option"
  historyLoading :: bool
  abortRef :: bool
  isLoading :: bool
  inputValue :: string
  isAuthenticated :: bool

fun startsWith :: "string \<Rightarrow> string \<Rightarrow> bool" where
  "startsWith s [] = True"
| "startsWith [] (c # cs) = False"
| "startsWith (d # ds) (c # cs) = (d = c \<and> startsWith ds cs)"

fun includes' :: "string \<Rightarrow> string \<Rightarrow> bool" where
  "includes' [] needle = (needle = [])"
| "includes' (c # cs) needle = (startsWith (c # cs) needle \<or> includes' cs needle)"

text \<open>\<^verbatim>\<open>!contentType || !contentType.includes('application/json')\<close>\<close>

definition notJson :: "string option \<Rightarrow> bool" where
  "notJson contentType =
     (case contentType of
        None \<Rightarrow> True
      | Some ct \<Rightarrow> ct = [] \<or> \<not> includes' ct ''application/json'')"

text \<open>\<^verbatim>\<open>new Error(data.detail || fallback)\<close>\<close>

definition detailError :: "string option \<Rightarrow> string \<Rightarrow> exn" where
  "detailError detail fallback =
     Exn ''Error'' (case detail of
                      None \<Rightarrow> fallback
                    | Some d \<Rightarrow> (if d \<noteq> [] then d else fallback))"

text \<open>The \<^verbatim>\<open>since\<close> parameter of the request, when the URL gets one.\<close>

definition request_since :: "bool \<Rightarrow> chat_state \<Rightarrow> int option" where
  "request_since isInitial st =
     (if \<not> isInitial \<and> lastFetchTimeRef st \<noteq> None then lastFetchTimeRef st else None)"

text \<open>\<^verbatim>\<open>data.messages.map(buildAgentMessage).filter(Boolean)\<close>, on an array only.\<close>

definition normalize ::
  "(string \<Rightarrow> int option) \<Rightarrow> int \<Rightarrow> responses_body \<Rightarrow> message list" where
  "normalize dateParse now data =
     List.map_filter (buildAgentMessage dateParse now)
       (case rb_messages data of Some items \<Rightarrow> items | None \<Rightarrow> [])"

text \<open>
  The \<^verbatim>\<open>try\<close> block, run when the awaited fetch settles, on the state of that moment:
  \<open>Inl\<close> is a thrown exception, \<open>Inr\<close> the state the block leaves.
\<close>

definition fetch_try ::
  "(string \<Rightarrow> int option) \<Rightarrow> int \<Rightarrow> bool \<Rightarrow> responses_body fetch_result \<Rightarrow> chat_state
     \<Rightarrow> exn + chat_state" where
  "fetch_try dateParse now isInitial res st =
     (case res of
        Rejected e \<Rightarrow> Inl e
      | Response contentType ok body \<Rightarrow>
          if notJson contentType
          then Inl (Exn ''Error'' ''Received non-JSON response from server'')
          else
            (case body of
               Inl e \<Rightarrow> Inl e
             | Inr data \<Rightarrow>
                 if \<not> ok then Inl (detailError (rb_detail data) ''Failed to load agent responses'')
                 else if abortRef st then Inr st
                 else
                   let normalized = normalize dateParse now data;
                       st1 = (case normalized of
                                [] \<Rightarrow> st
                              | first # rest \<Rightarrow>
                                  st\<lparr>messages := upsertMessages dateParse now (map Some normalized)
                                                     (\<not> isInitial) (messages st),
                                     lastFetchTimeRef :=
                                       (case timestamp first of
                                          JDate latestTimestamp \<Rightarrow> Some latestTimestamp
                                        | _ \<Rightarrow> lastFetchTimeRef st)\<rparr>)
                   in Inr (st1\<lparr>historyError := None\<rparr>)))"

definition fetchAgentResponses ::
  "(string \<Rightarrow> int option) \<Rightarrow> int \<Rightarrow> bool \<Rightarrow> responses_body fetch_result \<Rightarrow> chat_state
     \<Rightarrow> chat_state" where
  "fetchAgentResponses dateParse now isInitial res st =
     (let st1 = (case fetch_try dateParse now isInitial res st of
                   Inr st' \<Rightarrow> st'
                 | Inl error \<Rightarrow>
                     if abortRef st then st
                     else st\<lparr>historyError :=
                               Some (if exn_message error \<noteq> [] then exn_message error
                                     else ''Unable to load agent responses'')\<rparr>)
      in if \<not> abortRef st1 then st1\<lparr>historyLoading := False\<rparr> else st1)"

section \<open>\<^verbatim>\<open>ChatTerminal.jsx\<close>: \<^verbatim>\<open>handleSubmit\<close>\<close>

definition trim :: "string \<Rightarrow> string" where
  "trim s = rev (dropWhile isWhiteSpace (rev (dropWhile isWhiteSpace s)))"

fun showNat :: "nat \<Rightarrow> string" where
  "showNat n =
     (if n < 10 then [char_of (48 + n)]
      else showNat (n div 10) @ [char_of (48 + n mod 10)])"

definition showInt :: "int \<Rightarrow> string" where
  "showInt i = (if i < 0 then CHR ''-'' # showNat (nat (- i)) else showNat (nat i))"

text \<open>\<^verbatim>\<open>String(error)\<close> of an exception.\<close>

definition exn_toString :: "exn \<Rightarrow> string" where
  "exn_toString e =
     (if exn_message e = [] then exn_name e else exn_name e @ '': '' @ exn_message e)"

definition userMessage :: "int \<Rightarrow> string \<Rightarrow> message" where
  "userMessage now taskText = \<lparr>
     id' = JStr (''user-'' @ showInt now),
     sender = ''user'',
     text' = JStr taskText,
     timestamp = JDate now,
     taskId = JUndefined,
     taskTitle = JUndefined,
     taskStatus = JUndefined,
     agentId = JUndefined,
     progressPercent = JUndefined,
     isThinking = False,
     isError = False \<rparr>"

definition thinkingMessage :: "int \<Rightarrow> message" where
  "thinkingMessage now = \<lparr>
     id' = JStr (''thinking-'' @ showInt now),
     sender = ''system'',
     text' = JStr ''Sending task to agents...'',
     timestamp = JDate now,
     taskId = JUndefined,
     taskTitle = JUndefined,
     taskStatus = JUndefined,
     agentId = JUndefined,
     progressPercent = JUndefined,
     isThinking = True,
     isError = False \<rparr>"

definition errorMessage :: "int \<Rightarrow> exn \<Rightarrow> message" where
  "errorMessage now error = \<lparr>
     id' = JStr (''error-'' @ showInt now),
     sender = ''system'',
     text' = JStr (''Error: '' @ (if exn_message error \<noteq> [] then exn_message error
                                  else exn_toString error)),
     timestamp = JDate now,
     taskId = JUndefined,
     taskTitle = JUndefined,
     taskStatus = JUndefined,
     agentId = JUndefined,
     progressPercent = JUndefined,
     isThinking = False,
     isError = True \<rparr>"

text \<open>The synchronous part of \<^verbatim>\<open>handleSubmit\<close>, up to the awaited request.\<close>

definition handleSubmit_begin ::
  "(string \<Rightarrow> int option) \<Rightarrow> int \<Rightarrow> chat_state \<Rightarrow> chat_state" where
  "handleSubmit_begin dateParse now st =
     (if \<not> isAuthenticated st then st
      else if trim (inputValue st) = [] \<or> isLoading st then st
      else
        let taskText = trim (inputValue st);
            st1 = st\<lparr>messages := upsertMessages dateParse now
                                     [Some (userMessage now taskText)] False (messages st)\<rparr>;
            st2 = st1\<lparr>inputValue := [], isLoading := True\<rparr>
        in st2\<lparr>messages := upsertMessages dateParse now
                                [Some (thinkingMessage now)] False (messages st2)\<rparr>)"

text \<open>
  The updater run on a parsed response: drop the placeholder, give the optimistic
  message the id the server returned.
\<close>

definition reconcile :: "message \<Rightarrow> send_body \<Rightarrow> message list \<Rightarrow> message list" where
  "reconcile userMsg data prev =
     (let filtered = filter (\<lambda>msg. \<not> isThinking msg) prev
      in map (\<lambda>msg. if id' msg = id' userMsg
                     then msg\<lparr>id' := js_or (message_id data) (id' msg)\<rparr>
                     else msg) filtered)"

text \<open>
  The \<^verbatim>\<open>try\<close> block after the request settles: the exception thrown, if any, and the
  state at that point (the updater has already run when a parsed body has a failing
  status).
\<close>

definition submit_try ::
  "send_body fetch_result \<Rightarrow> message \<Rightarrow> chat_state \<Rightarrow> exn option \<times> chat_state" where
  "submit_try res userMsg st =
     (case res of
        Rejected e \<Rightarrow> (Some e, st)
      | Response contentType ok body \<Rightarrow>
          if notJson contentType
          then (Some (Exn ''Error'' ''Received non-JSON response from server''), st)
          else
            (case body of
               Inl e \<Rightarrow> (Some e, st)
             | Inr data \<Rightarrow>
                 let st1 = st\<lparr>messages := reconcile userMsg data (messages st)\<rparr>
                 in if \<not> ok
                    then (Some (detailError (sb_detail data) ''Failed to send message''), st1)
                    else (None, st1)))"

definition removeThinking :: "message list \<Rightarrow> message list" where
  "removeThinking prev = filter (\<lambda>msg. \<not> isThinking msg) prev"

definition handleSubmit_resume ::
  "(string \<Rightarrow> int option) \<Rightarrow> int \<Rightarrow> send_body fetch_result \<Rightarrow> message \<Rightarrow> chat_state
     \<Rightarrow> chat_state" where
  "handleSubmit_resume dateParse now res userMsg st =
     (let (thrown, st1) = submit_try res userMsg st;
          st2 = (case thrown of
                   None \<Rightarrow> st1
                 | Some error \<Rightarrow>
                     let st' = st1\<lparr>messages := removeThinking (messages st1)\<rparr>
                     in st'\<lparr>messages := upsertMessages dateParse now
                                            [Some (errorMessage now error)] False (messages st')\<rparr>)
      in st2\<lparr>isLoading := False\<rparr>)"

text \<open>Every update of the message list the component makes, as one operation type.\<close>

datatype store_op =
    Upsert int "message option list" bool
  | RemoveThinking
  | Reconcile message send_body

fun apply_op :: "(string \<Rightarrow> int option) \<Rightarrow> message list \<Rightarrow> store_op \<Rightarrow> message list" where
  "apply_op dateParse prev (Upsert now incoming restampNew) =
     upsertMessages dateParse now incoming restampNew prev"
| "apply_op dateParse prev RemoveThinking = removeThinking prev"
| "apply_op dateParse prev (Reconcile userMsg data) = reconcile userMsg data prev"

definition run_ops :: "(string \<Rightarrow> int option) \<Rightarrow> store_op list \<Rightarrow> message list" where
  "run_ops dateParse ops = foldl (apply_op dateParse) [] ops"

section \<open>Vocabulary of the properties\<close>

text \<open>The event stored under an id, and its ordering key (its timestamp).\<close>

definition lookupId :: "jsval \<Rightarrow> message list \<Rightarrow> message option" where
  "lookupId k store = find (\<lambda>msg. id' msg = k) store"

definition orderingKey :: "jsval \<Rightarrow> message list \<Rightarrow> jsval option" where
  "orderingKey k store = map_option timestamp (lookupId k store)"

text \<open>The entries \<^verbatim>\<open>prev.map((msg) => [msg.id, msg])\<close> the \<^verbatim>\<open>Map\<close> is built from.\<close>

definition entriesOf :: "message list \<Rightarrow> (jsval \<times> message) list" where
  "entriesOf prev = map (\<lambda>msg. (id' msg, msg)) prev"

text \<open>Every value of the map sits under its own id.\<close>

definition keyed :: "(jsval \<times> message) list \<Rightarrow> bool" where
  "keyed m = list_all (\<lambda>e. id' (snd e) = fst e) m"

text \<open>The elements of a batch that the loop does not skip, and the last one for an id.\<close>

definition validIncoming :: "message option list \<Rightarrow> message list" where
  "validIncoming incoming =
     filter (\<lambda>msg. id' msg \<noteq> JUndefined \<and> id' msg \<noteq> JNull) (List.map_filter (\<lambda>x. x) incoming)"

definition lastFor :: "jsval \<Rightarrow> message option list \<Rightarrow> message option" where
  "lastFor k incoming = find (\<lambda>msg. id' msg = k) (rev (validIncoming incoming))"

text \<open>The timestamp a merge stores for an id of the batch, from the map \<open>m0\<close> it started on.\<close>

definition stampFor ::
  "(string \<Rightarrow> int option) \<Rightarrow> int \<Rightarrow> bool \<Rightarrow> (jsval \<times> message) list \<Rightarrow> jsval \<Rightarrow> message
     \<Rightarrow> jsval" where
  "stampFor dateParse now restampNew m0 k msg =
     (if restampNew
      then (case map_get k m0 of Some existing \<Rightarrow> timestamp existing | None \<Rightarrow> JDate now)
      else ensureDate dateParse now (timestamp msg))"

text \<open>An event whose \<open>taskId\<close> is absent or does not parse as an integer.\<close>

definition noTaskOrdinal :: "message \<Rightarrow> bool" where
  "noTaskOrdinal a = (parseInt (taskId a) = None)"

text \<open>A timestamp value from which \<open>ensureDate\<close> gets a time without reading the clock.\<close>

definition carriesTime :: "(string \<Rightarrow> int option) \<Rightarrow> jsval \<Rightarrow> bool" where
  "carriesTime dateParse v =
     (case v of
        JDate d \<Rightarrow> True
      | JStr s \<Rightarrow> dateParse s \<noteq> None
      | JNum n \<Rightarrow> \<bar>n\<bar> \<le> 8640000000000000
      | _ \<Rightarrow> False)"

text \<open>
  A request that fails: the fetch rejects, the content type is not JSON, the body does
  not parse, or the status is not a success.
\<close>

definition fetchFails :: "'b fetch_result \<Rightarrow> bool" where
  "fetchFails res =
     (case res of
        Rejected e \<Rightarrow> True
      | Response contentType ok body \<Rightarrow>
          notJson contentType \<or> (case body of Inl e \<Rightarrow> True | Inr data \<Rightarrow> \<not> ok))"

text \<open>The highest ordering key among the events of a store.\<close>

fun highestOrderingKey :: "message list \<Rightarrow> int option" where
  "highestOrderingKey [] = None"
| "highestOrderingKey (m # ms) =
     (case highestOrderingKey ms of
        None \<Rightarrow> Some (getTime (timestamp m))
      | Some h \<Rightarrow> Some (max h (getTime (timestamp m))))"

text \<open>
  The most recent timestamp among the normalized events of a response (what the comment
  on the cursor update names).
\<close>

definition mostRecentTimestamp :: "message list \<Rightarrow> int option" where
  "mostRecentTimestamp normalized = highestOrderingKey normalized"

subsection \<open>The order the specification describes\<close>

text \<open>
  In the words of the specification: the causal sequence (the task ordinal) when both
  compared events have one, otherwise the ordering key (the timestamp), and the id,
  lexicographically, to break a tie. \<open>spec_before a b\<close>: the specification places \<open>a\<close>
  strictly before \<open>b\<close>.
\<close>

definition causalSequence :: "message \<Rightarrow> int option" where
  "causalSequence a = parseInt (taskId a)"

fun lexLess :: "string \<Rightarrow> string \<Rightarrow> bool" where
  "lexLess [] [] = False"
| "lexLess [] (c # cs) = True"
| "lexLess (d # ds) [] = False"
| "lexLess (d # ds) (c # cs) =
     ((of_char d :: nat) < of_char c \<or> (d = c \<and> lexLess ds cs))"

definition idString :: "jsval \<Rightarrow> string" where
  "idString v = (case v of JStr s \<Rightarrow> s | JNum n \<Rightarrow> showInt n | _ \<Rightarrow> [])"

definition spec_byKey :: "message \<Rightarrow> message \<Rightarrow> bool" where
  "spec_byKey a b =
     (getTime (timestamp a) < getTime (timestamp b)
      \<or> (getTime (timestamp a) = getTime (timestamp b)
          \<and> lexLess (idString (id' a)) (idString (id' b))))"

definition spec_before :: "message \<Rightarrow> message \<Rightarrow> bool" where
  "spec_before a b =
     (case causalSequence a of
        None \<Rightarrow> spec_byKey a b
      | Some x \<Rightarrow>
          (case causalSequence b of
             None \<Rightarrow> spec_byKey a b
           | Some y \<Rightarrow> (if x \<noteq> y then x < y else spec_byKey a b)))"

subsection \<open>Concrete data for the instances\<close>

definition noDateParse :: "string \<Rightarrow> int option" where
  "noDateParse s = None"

definition agentEvent :: "string \<Rightarrow> int \<Rightarrow> jsval \<Rightarrow> message" where
  "agentEvent k t task = \<lparr>
     id' = JStr k,
     sender = ''agent'',
     text' = JStr ''progress'',
     timestamp = JDate t,
     taskId = task,
     taskTitle = JUndefined,
     taskStatus = JUndefined,
     agentId = JStr ''agent1'',
     progressPercent = JUndefined,
     isThinking = False,
     isError = False \<rparr>"

text \<open>The component after mounting and authentication, with a task typed in.\<close>

definition readyState :: chat_state where
  "readyState = \<lparr>
     messages = [],
     lastFetchTimeRef = None,
     historyError = None,
     historyLoading = True,
     abortRef = False,
     isLoading = False,
     inputValue = ''do it'',
     isAuthenticated = True \<rparr>"

definition rawItem :: "string \<Rightarrow> int \<Rightarrow> raw_item" where
  "rawItem k t = \<lparr>
     item_id = JStr k,
     item_agent_id = JStr ''agent1'',
     item_message = JStr ''progress'',
     item_timestamp = JNum t,
     item_progress_percent = JUndefined,
     item_task = None,
     item_task_id = JUndefined \<rparr>"

definition pollOf :: "raw_item list \<Rightarrow> responses_body fetch_result" where
  "pollOf items =
     Response (Some ''application/json'') True
       (Inr \<lparr>rb_detail = None, rb_messages = Some (map Some items)\<rparr>)"

definition ackOf :: "string \<Rightarrow> send_body" where
  "ackOf k = \<lparr>sb_detail = None, message_id = JStr k, task_id = JUndefined\<rparr>"

definition networkError :: exn where
  "networkError = Exn ''TypeError'' ''Failed to fetch''"

text \<open>Stores of 49 and of 50 events of task 5 with numeric ids, in view order.\<close>

definition task5Store :: "message list" where
  "task5Store =
     map (\<lambda>i. (agentEvent ''p'' 100 (JNum 5))\<lparr>id' := JNum (int i)\<rparr>) [1..<50]"

definition fullTask5Store :: "message list" where
  "fullTask5Store =
     map (\<lambda>i. (agentEvent ''p'' 100 (JNum 5))\<lparr>id' := JNum (int i)\<rparr>) [0..<50]"

text \<open>A batch whose event carries no timestamp, and a batch of two events of task 1.\<close>

definition untimedBatch :: "message option list" where
  "untimedBatch = [Some ((agentEvent ''m1'' 0 (JNum 1))\<lparr>timestamp := JUndefined\<rparr>)]"

definition oldTaskBatch :: "message option list" where
  "oldTaskBatch = [Some (agentEvent ''b1'' 7 (JNum 1)), Some (agentEvent ''b2'' 8 (JNum 1))]"

section \<open>Lemmas\<close>

subsection \<open>The map\<close>

lemma map_of_map_set: "map_of (map_set k v m) = (map_of m)(k \<mapsto> v)"
  by (induction m) (auto simp: fun_eq_iff)

lemma keys_map_set:
  "map fst (map_set k v m) = (if k \<in> fst ` set m then map fst m else map fst m @ [k])"
  by (induction m) auto

lemma distinct_map_set: "distinct (map fst m) \<Longrightarrow> distinct (map fst (map_set k v m))"
  by (simp add: keys_map_set)

lemma set_map_set: "set (map_set k v m) \<subseteq> insert (k, v) (set m)"
  by (induction m) auto

lemma map_set_mem: "(k, v) \<in> set (map_set k v m)"
  by (induction m) auto

lemma map_set_keeps: "e \<in> set m \<Longrightarrow> fst e \<noteq> k \<Longrightarrow> e \<in> set (map_set k v m)"
  by (induction m) auto

lemma length_map_set: "length (map_set k v m) \<le> Suc (length m)"
  by (induction m) auto

lemma map_set_fresh: "k \<notin> fst ` set m \<Longrightarrow> map_set k v m = m @ [(k, v)]"
  by (induction m) auto

lemma keyed_map_set: "keyed m \<Longrightarrow> id' v = k \<Longrightarrow> keyed (map_set k v m)"
  by (induction m) (auto simp: keyed_def)

lemma foldl_map_set_distinct:
  "distinct (map fst m) \<Longrightarrow>
   distinct (map fst (foldl (\<lambda>m e. map_set (fst e) (snd e) m) m es))"
  by (induction es arbitrary: m) (auto simp: distinct_map_set)

lemma distinct_new_Map: "distinct (map fst (new_Map es))"
  by (simp add: new_Map_def foldl_map_set_distinct)

lemma foldl_map_set_length:
  "length (foldl (\<lambda>m e. map_set (fst e) (snd e) m) m es) \<le> length m + length es"
proof (induction es arbitrary: m)
  case Nil
  then show ?case by simp
next
  case (Cons e es)
  have "length (foldl (\<lambda>m e. map_set (fst e) (snd e) m) (map_set (fst e) (snd e) m) es)
          \<le> length (map_set (fst e) (snd e) m) + length es"
    by (rule Cons.IH)
  also have "\<dots> \<le> Suc (length m) + length es"
    using length_map_set [of "fst e" "snd e" m] by simp
  finally show ?case by simp
qed

lemma length_new_Map: "length (new_Map es) \<le> length es"
  using foldl_map_set_length [of "[]" es] by (simp add: new_Map_def)

lemma foldl_map_set_fresh:
  "distinct (map fst (m @ es)) \<Longrightarrow> foldl (\<lambda>m e. map_set (fst e) (snd e) m) m es = m @ es"
proof (induction es arbitrary: m)
  case Nil
  then show ?case by simp
next
  case (Cons e es)
  have "map_set (fst e) (snd e) m = m @ [e]"
    using Cons.prems by (auto simp: map_set_fresh)
  then show ?case using Cons.IH [of "m @ [e]"] Cons.prems by simp
qed

lemma new_Map_distinct_id: "distinct (map fst es) \<Longrightarrow> new_Map es = es"
  using foldl_map_set_fresh [of "[]" es] by (simp add: new_Map_def)

lemma foldl_map_set_keyed:
  "keyed m \<Longrightarrow> keyed es \<Longrightarrow> keyed (foldl (\<lambda>m e. map_set (fst e) (snd e) m) m es)"
proof (induction es arbitrary: m)
  case Nil
  then show ?case by simp
next
  case (Cons e es)
  have "keyed (map_set (fst e) (snd e) m)"
    using Cons.prems by (intro keyed_map_set) (simp_all add: keyed_def)
  moreover have "keyed es" using Cons.prems by (simp add: keyed_def)
  ultimately show ?case using Cons.IH by simp
qed

lemma keyed_entriesOf: "keyed (entriesOf prev)"
  by (simp add: keyed_def entriesOf_def list_all_iff)

lemma keys_entriesOf: "map fst (entriesOf prev) = map id' prev"
  by (simp add: entriesOf_def comp_def)

lemma values_entriesOf: "map_values (entriesOf prev) = prev"
  by (simp add: entriesOf_def map_values_def comp_def)

lemma keyed_new_Map: "keyed (new_Map (entriesOf prev))"
  unfolding new_Map_def
  by (rule foldl_map_set_keyed) (simp_all add: keyed_entriesOf, simp add: keyed_def)

lemma new_Map_entriesOf: "distinct (map id' prev) \<Longrightarrow> new_Map (entriesOf prev) = entriesOf prev"
  by (simp add: new_Map_distinct_id keys_entriesOf)

lemma keyed_values_ids: "keyed m \<Longrightarrow> map id' (map_values m) = map fst m"
  by (induction m) (auto simp: keyed_def map_values_def)

lemma keyed_mem: "keyed m \<Longrightarrow> v \<in> set (map_values m) \<Longrightarrow> (id' v, v) \<in> set m"
  by (auto simp: keyed_def map_values_def list_all_iff)

lemma alist_eqI:
  "map fst xs = map fst ys \<Longrightarrow> distinct (map fst xs) \<Longrightarrow>
   (\<And>k. k \<in> fst ` set xs \<Longrightarrow> map_of xs k = map_of ys k) \<Longrightarrow> xs = ys"
proof (induction xs arbitrary: ys)
  case Nil
  then show ?case by simp
next
  case (Cons x xs)
  then obtain y ys' where ys: "ys = y # ys'" by (cases ys) auto
  have k: "fst x = fst y" and ks: "map fst xs = map fst ys'"
    using Cons.prems(1) ys by simp_all
  have "map_of (x # xs) (fst x) = map_of ys (fst x)"
    using Cons.prems(3) [of "fst x"] by simp
  then have "snd x = snd y" using ys k by simp
  then have xy: "x = y" using k by (simp add: prod_eq_iff)
  have "xs = ys'"
  proof (rule Cons.IH [OF ks])
    show "distinct (map fst xs)" using Cons.prems(2) by simp
  next
    fix k assume kin: "k \<in> fst ` set xs"
    have "fst x \<notin> set (map fst xs)" using Cons.prems(2) by simp
    then have "k \<noteq> fst x" using kin by (simp only: set_map) blast
    moreover have "map_of (x # xs) k = map_of ys k"
      using Cons.prems(3) [of k] kin by simp
    ultimately show "map_of xs k = map_of ys' k" using ys xy by simp
  qed
  then show ?case using ys xy by simp
qed

subsection \<open>One merge\<close>

lemma keyed_upsert_one: "keyed m \<Longrightarrow> keyed (upsert_one P now r m x)"
  by (auto simp: upsert_one_def Let_def keyed_map_set split: option.splits)

lemma distinct_upsert_one:
  "distinct (map fst m) \<Longrightarrow> distinct (map fst (upsert_one P now r m x))"
  by (auto simp: upsert_one_def Let_def distinct_map_set split: option.splits)

lemma length_upsert_one: "length (upsert_one P now r m x) \<le> Suc (length m)"
  by (auto simp: upsert_one_def Let_def length_map_set split: option.splits)

lemma keyed_foldl_upsert: "keyed m \<Longrightarrow> keyed (foldl (upsert_one P now r) m xs)"
  by (induction xs arbitrary: m) (auto simp: keyed_upsert_one)

lemma distinct_foldl_upsert:
  "distinct (map fst m) \<Longrightarrow> distinct (map fst (foldl (upsert_one P now r) m xs))"
  by (induction xs arbitrary: m) (auto simp: distinct_upsert_one)

lemma merged_alt:
  "merged P now incoming r prev = foldl (upsert_one P now r) (new_Map (entriesOf prev)) incoming"
  by (simp add: merged_def entriesOf_def)

lemma keyed_merged: "keyed (merged P now incoming r prev)"
  by (simp add: merged_alt keyed_foldl_upsert keyed_new_Map)

lemma distinct_merged: "distinct (map fst (merged P now incoming r prev))"
  by (simp add: merged_alt distinct_foldl_upsert distinct_new_Map)

lemma distinct_ids_merged: "distinct (map id' (map_values (merged P now incoming r prev)))"
  by (simp add: keyed_values_ids keyed_merged distinct_merged)

lemma validIncoming_snoc:
  "validIncoming (xs @ [x]) =
     validIncoming xs @
     (case x of
        None \<Rightarrow> []
      | Some msg \<Rightarrow> if id' msg \<noteq> JUndefined \<and> id' msg \<noteq> JNull then [msg] else [])"
  by (auto simp: validIncoming_def List.map_filter_def split: option.splits)

lemma map_of_upsert_one:
  "map_of (upsert_one P now r m x) k =
     (case x of
        None \<Rightarrow> map_of m k
      | Some msg \<Rightarrow>
          if id' msg = JUndefined \<or> id' msg = JNull \<or> id' msg \<noteq> k then map_of m k
          else Some (msg\<lparr>timestamp :=
                 (if r then (case map_of m k of Some e \<Rightarrow> timestamp e | None \<Rightarrow> JDate now)
                  else ensureDate P now (timestamp msg))\<rparr>))"
  by (auto simp: upsert_one_def map_of_map_set map_get_def Let_def split: option.splits)

lemma map_of_foldl_upsert:
  "map_of (foldl (upsert_one P now r) m0 incoming) k =
     (case lastFor k incoming of
        None \<Rightarrow> map_of m0 k
      | Some msg \<Rightarrow> Some (msg\<lparr>timestamp := stampFor P now r m0 k msg\<rparr>))"
proof (induction incoming rule: rev_induct)
  case Nil
  then show ?case by (simp add: lastFor_def validIncoming_def List.map_filter_def)
next
  case (snoc x xs)
  show ?case
  proof (cases x)
    case None
    then show ?thesis using snoc
      by (simp add: map_of_upsert_one lastFor_def validIncoming_snoc)
  next
    case (Some msg)
    show ?thesis
    proof (cases "id' msg = JUndefined \<or> id' msg = JNull \<or> id' msg \<noteq> k")
      case True
      then show ?thesis using snoc Some
        by (auto simp: map_of_upsert_one lastFor_def validIncoming_snoc)
    next
      case False
      then show ?thesis using snoc Some
        by (auto simp: map_of_upsert_one lastFor_def validIncoming_snoc stampFor_def
            map_get_def split: option.splits)
    qed
  qed
qed

subsection \<open>Sorting and the retention window\<close>

lemma length_slice_last: "length (slice_last n xs) = min n (length xs)"
  by (simp add: slice_last_def)

lemma set_slice_last: "set (slice_last n xs) \<subseteq> set xs"
  by (simp add: slice_last_def set_drop_subset)

lemma slice_last_all: "length xs \<le> n \<Longrightarrow> slice_last n xs = xs"
  by (simp add: slice_last_def)

lemma sorted_slice_last: "sorted (map f xs) \<Longrightarrow> sorted (map f (slice_last n xs))"
  by (simp add: slice_last_def drop_map [symmetric])

lemma distinct_slice_last: "distinct (map f xs) \<Longrightarrow> distinct (map f (slice_last n xs))"
  by (simp add: slice_last_def drop_map [symmetric])

lemma sorted_sortByTask: "sorted (map taskKey (sortByTask xs))"
  by (simp add: sortByTask_def)

lemma set_sortByTask: "set (sortByTask xs) = set xs"
  by (simp add: sortByTask_def)

lemma length_sortByTask: "length (sortByTask xs) = length xs"
  by (simp add: sortByTask_def)

lemma sortByTask_sorted: "sorted (map taskKey xs) \<Longrightarrow> sortByTask xs = xs"
  by (simp add: sortByTask_def sort_key_id_if_sorted)

lemma distinct_ids_sortByTask: "distinct (map id' xs) \<Longrightarrow> distinct (map id' (sortByTask xs))"
proof -
  assume d: "distinct (map id' xs)"
  have "mset (map id' (sortByTask xs)) = mset (map id' xs)"
    by (simp add: sortByTask_def)
  then show ?thesis using d by (metis mset_eq_imp_distinct_iff)
qed

lemma upsertMessages_nonempty:
  "incoming \<noteq> [] \<Longrightarrow>
   upsertMessages P now incoming r prev =
     slice_last 50 (sortByTask (map_values (merged P now incoming r prev)))"
  by (simp add: upsertMessages_def Let_def)

lemma length_upsertMessages: "length prev \<le> 50 \<Longrightarrow> length (upsertMessages P now incoming r prev) \<le> 50"
  by (simp add: upsertMessages_def Let_def length_slice_last)

lemma distinct_upsertMessages:
  "incoming \<noteq> [] \<Longrightarrow> distinct (map id' (upsertMessages P now incoming r prev))"
  by (simp add: upsertMessages_nonempty distinct_slice_last distinct_ids_sortByTask
      distinct_ids_merged)

lemma sorted_upsertMessages:
  "incoming \<noteq> [] \<Longrightarrow> sorted (map taskKey (upsertMessages P now incoming r prev))"
  by (simp add: upsertMessages_nonempty sorted_slice_last sorted_sortByTask)

lemma upsertMessages_subset:
  "incoming \<noteq> [] \<Longrightarrow>
   set (upsertMessages P now incoming r prev) \<subseteq> set (map_values (merged P now incoming r prev))"
  using set_slice_last [of 50 "sortByTask (map_values (merged P now incoming r prev))"]
  by (simp add: upsertMessages_nonempty set_sortByTask)

subsection \<open>Sequences of updates\<close>

lemma length_reconcile: "length (reconcile u d prev) \<le> length prev"
  by (simp add: reconcile_def Let_def)

lemma length_removeThinking: "length (removeThinking prev) \<le> length prev"
  by (simp add: removeThinking_def)

lemma length_apply_op: "length prev \<le> 50 \<Longrightarrow> length (apply_op P prev op) \<le> 50"
proof (cases op)
  case (Upsert now incoming r)
  assume "length prev \<le> 50"
  then show ?thesis using Upsert by (simp add: length_upsertMessages)
next
  case RemoveThinking
  assume "length prev \<le> 50"
  then show ?thesis using RemoveThinking length_removeThinking [of prev] by simp
next
  case (Reconcile u d)
  assume "length prev \<le> 50"
  then show ?thesis using Reconcile length_reconcile [of u d prev] by simp
qed

lemma length_foldl_apply_op:
  "length st \<le> 50 \<Longrightarrow> length (foldl (apply_op P) st ops) \<le> 50"
  by (induction ops arbitrary: st) (simp_all add: length_apply_op)

subsection \<open>Sorted lists\<close>

lemma sorted_drop_keeps_larger:
  fixes f :: "'a \<Rightarrow> int"
  assumes s: "sorted (map f ys)" and a: "a \<in> set (drop n ys)" and b: "b \<in> set ys"
    and lt: "f a < f b"
  shows "b \<in> set (drop n ys)"
proof (rule ccontr)
  assume nb: "b \<notin> set (drop n ys)"
  have "set ys = set (take n ys) \<union> set (drop n ys)"
    by (metis append_take_drop_id set_append)
  then have bt: "b \<in> set (take n ys)" using b nb by blast
  have "sorted (map f (take n ys) @ map f (drop n ys))"
    using s by (metis append_take_drop_id map_append)
  then have "\<forall>x\<in>set (map f (take n ys)). \<forall>y\<in>set (map f (drop n ys)). x \<le> y"
    by (simp add: sorted_append)
  then have "f b \<le> f a" using bt a by simp
  then show False using lt by simp
qed

lemma sorted_nth_order:
  fixes f :: "'a \<Rightarrow> int"
  assumes s: "sorted (map f ys)" and i: "i < length ys" and j: "j < length ys"
    and lt: "f (ys ! j) < f (ys ! i)"
  shows "j < i"
proof (rule ccontr)
  assume "\<not> j < i"
  then have "i \<le> j" by simp
  then have "map f ys ! i \<le> map f ys ! j"
    using s j by (simp add: sorted_nth_mono del: nth_map)
  then show False using lt i j by simp
qed

lemma sorted_take_le_drop:
  fixes f :: "'a \<Rightarrow> int"
  assumes s: "sorted (map f ys)" and x: "x \<in> set (take n ys)" and a: "a \<in> set (drop n ys)"
  shows "f x \<le> f a"
proof -
  have "sorted (map f (take n ys) @ map f (drop n ys))"
    using s by (metis append_take_drop_id map_append)
  then have "\<forall>u\<in>set (map f (take n ys)). \<forall>v\<in>set (map f (drop n ys)). u \<le> v"
    by (simp add: sorted_append)
  then show ?thesis using x a by simp
qed

lemma kept_bottom_bounds_larger:
  fixes f :: "'a \<Rightarrow> int"
  assumes s: "sorted (map f ys)" and a: "a \<in> set (drop n ys)"
  shows "length (filter (\<lambda>b. f a < f b) ys) < length (drop n ys)"
proof -
  let ?Q = "\<lambda>b. f a < f b"
  have "filter ?Q (take n ys) = []"
  proof (rule filter_False, rule ballI)
    fix x assume x: "x \<in> set (take n ys)"
    have "f x \<le> f a" using s x a by (rule sorted_take_le_drop)
    then show "\<not> f a < f x" by simp
  qed
  moreover have "filter ?Q ys = filter ?Q (take n ys) @ filter ?Q (drop n ys)"
    by (metis append_take_drop_id filter_append)
  ultimately have e: "length (filter ?Q ys) = length (filter ?Q (drop n ys))" by simp
  have "filter (\<lambda>b. \<not> ?Q b) (drop n ys) \<noteq> []"
    using a by (auto simp: filter_empty_conv)
  then have "0 < length (filter (\<lambda>b. \<not> ?Q b) (drop n ys))" by simp
  moreover have "length (filter ?Q (drop n ys)) + length (filter (\<lambda>b. \<not> ?Q b) (drop n ys))
      = length (drop n ys)"
    by (rule sum_length_filter_compl)
  ultimately show ?thesis using e by linarith
qed

lemma length_filter_sortByTask:
  "length (filter Q (sortByTask vs)) = length (filter Q vs)"
proof -
  have "mset (filter Q (sortByTask vs)) = mset (filter Q vs)"
    by (simp add: sortByTask_def)
  then show ?thesis by (metis size_mset)
qed

lemma crowded_out:
  assumes ne: "incoming \<noteq> []"
    and k0: "taskKey a = 0"
    and many: "50 \<le> length (filter (\<lambda>b. 0 < taskKey b) (map_values (merged P now incoming r prev)))"
  shows "a \<notin> set (upsertMessages P now incoming r prev)"
proof
  let ?ys = "sortByTask (map_values (merged P now incoming r prev))"
  assume "a \<in> set (upsertMessages P now incoming r prev)"
  then have a: "a \<in> set (drop (length ?ys - 50) ?ys)"
    using ne by (simp add: upsertMessages_nonempty slice_last_def)
  have "length (filter (\<lambda>b. taskKey a < taskKey b) ?ys) < length (drop (length ?ys - 50) ?ys)"
    using sorted_sortByTask a by (rule kept_bottom_bounds_larger)
  then have "length (filter (\<lambda>b. 0 < taskKey b) ?ys) < 50"
    using k0 by simp
  then show False using many by (simp add: length_filter_sortByTask)
qed

subsection \<open>Looking an id up after a merge\<close>

lemma lookupId_SomeD: "lookupId k store = Some m \<Longrightarrow> m \<in> set store \<and> id' m = k"
  by (auto simp: lookupId_def find_Some_iff)

lemma lookupId_None_iff: "lookupId k store = None \<longleftrightarrow> k \<notin> id' ` set store"
  by (auto simp: lookupId_def find_None_iff)

lemma map_of_entriesOf: "map_of (entriesOf prev) k = lookupId k prev"
  by (induction prev) (auto simp: entriesOf_def lookupId_def)

lemma keyset_map_set: "fst ` set (map_set k v m) = insert k (fst ` set m)"
  by (induction m) auto

lemma keys_foldl_map_set:
  "fst ` set (foldl (\<lambda>m e. map_set (fst e) (snd e) m) m es) = fst ` set m \<union> fst ` set es"
proof (induction es arbitrary: m)
  case Nil
  then show ?case by simp
next
  case (Cons e es)
  have "fst ` set (map_set (fst e) (snd e) m) = insert (fst e) (fst ` set m)"
    by (rule keyset_map_set)
  then show ?case using Cons.IH [of "map_set (fst e) (snd e) m"] by auto
qed

lemma keys_new_Map: "fst ` set (new_Map es) = fst ` set es"
  using keys_foldl_map_set [of "[]" es] by (simp add: new_Map_def)

lemma map_of_new_Map_None:
  "lookupId k prev = None \<Longrightarrow> map_of (new_Map (entriesOf prev)) k = None"
proof -
  assume "lookupId k prev = None"
  then have "k \<notin> id' ` set prev" by (simp add: lookupId_None_iff)
  then have "k \<notin> fst ` set (entriesOf prev)"
    by (metis keys_entriesOf list.set_map)
  then have "k \<notin> fst ` set (new_Map (entriesOf prev))" by (simp add: keys_new_Map)
  then show ?thesis by (simp add: map_of_eq_None_iff)
qed

lemma map_of_merged:
  "map_of (merged P now incoming r prev) k =
     (case lastFor k incoming of
        None \<Rightarrow> map_of (new_Map (entriesOf prev)) k
      | Some msg \<Rightarrow> Some (msg\<lparr>timestamp := stampFor P now r (new_Map (entriesOf prev)) k msg\<rparr>))"
  by (simp add: merged_alt map_of_foldl_upsert)

lemma lookup_upsert_in_merged:
  assumes ne: "incoming \<noteq> []"
    and l: "lookupId k (upsertMessages P now incoming r prev) = Some m'"
  shows "map_of (merged P now incoming r prev) k = Some m'"
proof -
  have "m' \<in> set (upsertMessages P now incoming r prev)" and k: "id' m' = k"
    using lookupId_SomeD [OF l] by simp_all
  then have "m' \<in> set (map_values (merged P now incoming r prev))"
    using upsertMessages_subset [OF ne] by blast
  then have "(k, m') \<in> set (merged P now incoming r prev)"
    using keyed_mem [OF keyed_merged] k by blast
  then show ?thesis using distinct_merged by (simp add: map_of_eq_Some_iff)
qed

subsection \<open>A second merge of the same batch\<close>

lemma ensureDate_carried:
  assumes c: "carriesTime P v"
  shows "ensureDate P a v = ensureDate P b v"
proof (cases v)
  case (JStr s)
  then obtain d where "P s = Some d" using c by (auto simp: carriesTime_def)
  then show ?thesis using JStr by (simp add: ensureDate_def)
next
  case (JNum n)
  then show ?thesis using c by (simp add: carriesTime_def ensureDate_def)
qed (use c in \<open>simp_all add: carriesTime_def ensureDate_def\<close>)

lemma validIncoming_append: "validIncoming (xs @ ys) = validIncoming xs @ validIncoming ys"
  by (simp add: validIncoming_def List.map_filter_def)

lemma keys_upsert_one_present:
  "(\<forall>msg\<in>set (validIncoming [x]). id' msg \<in> fst ` set m) \<Longrightarrow>
   map fst (upsert_one P now r m x) = map fst m"
proof (cases x)
  case None
  then show ?thesis by (simp add: upsert_one_def)
next
  case (Some msg)
  assume a: "\<forall>msg\<in>set (validIncoming [x]). id' msg \<in> fst ` set m"
  show ?thesis
  proof (cases "id' msg = JUndefined \<or> id' msg = JNull")
    case True
    then show ?thesis using Some by (auto simp: upsert_one_def)
  next
    case False
    then have "validIncoming [x] = [msg]"
      using Some by (simp add: validIncoming_def List.map_filter_def)
    then have "id' msg \<in> fst ` set m" using a by simp
    then show ?thesis using Some False by (simp add: upsert_one_def Let_def keys_map_set)
  qed
qed

lemma keys_foldl_upsert_present:
  "(\<forall>msg\<in>set (validIncoming xs). id' msg \<in> fst ` set m) \<Longrightarrow>
   map fst (foldl (upsert_one P now r) m xs) = map fst m"
proof (induction xs arbitrary: m)
  case Nil
  then show ?case by simp
next
  case (Cons x xs)
  have v: "validIncoming (x # xs) = validIncoming [x] @ validIncoming xs"
    using validIncoming_append [of "[x]" xs] by simp
  have p1: "\<forall>msg\<in>set (validIncoming [x]). id' msg \<in> fst ` set m"
    using Cons.prems by (simp add: v)
  have p2: "\<forall>msg\<in>set (validIncoming xs). id' msg \<in> fst ` set m"
    using Cons.prems by (simp add: v)
  have k1: "map fst (upsert_one P now r m x) = map fst m"
    using p1 by (rule keys_upsert_one_present)
  have "set (map fst (upsert_one P now r m x)) = set (map fst m)"
    by (simp only: k1)
  then have ks: "fst ` set (upsert_one P now r m x) = fst ` set m"
    by (simp only: set_map)
  have "\<forall>msg\<in>set (validIncoming xs). id' msg \<in> fst ` set (upsert_one P now r m x)"
    using p2 by (simp only: ks)
  then have "map fst (foldl (upsert_one P now r) (upsert_one P now r m x) xs)
      = map fst (upsert_one P now r m x)"
    by (rule Cons.IH)
  then show ?case using k1 by simp
qed

lemma find_Some_mem: "find Q xs = Some x \<Longrightarrow> Q x \<and> x \<in> set xs"
  by (induction xs) (auto split: if_splits)

lemma lastFor_SomeD: "lastFor k incoming = Some msg \<Longrightarrow> msg \<in> set (validIncoming incoming) \<and> id' msg = k"
  using find_Some_mem [of "\<lambda>msg. id' msg = k" "rev (validIncoming incoming)" msg]
  by (simp add: lastFor_def)

subsection \<open>The acknowledgement\<close>

lemma lookupId_distinct_mem:
  "distinct (map id' xs) \<Longrightarrow> m \<in> set xs \<Longrightarrow> lookupId (id' m) xs = Some m"
proof (induction xs)
  case Nil
  then show ?case by simp
next
  case (Cons x xs)
  show ?case
  proof (cases "m = x")
    case True
    then show ?thesis by (simp add: lookupId_def)
  next
    case False
    then have mx: "m \<in> set xs" using Cons.prems by simp
    then have "id' m \<in> set (map id' xs)" by simp
    then have "id' x \<noteq> id' m" using Cons.prems(1) by auto
    moreover have "lookupId (id' m) xs = Some m" using Cons.IH Cons.prems(1) mx by simp
    ultimately show ?thesis by (simp add: lookupId_def)
  qed
qed

lemma distinct_ids_filter: "distinct (map id' xs) \<Longrightarrow> distinct (map id' (filter Q xs))"
  by (rule distinct_map_filter)

lemma notin_neq: "c \<notin> S \<Longrightarrow> a \<in> T \<Longrightarrow> T \<subseteq> S \<Longrightarrow> a \<noteq> c"
  by auto

lemma distinct_map_inj: "distinct ks \<Longrightarrow> inj_on g (set ks) \<Longrightarrow> distinct (map g ks)"
  by (simp add: distinct_map)

lemma swap_notin: "c \<noteq> u \<Longrightarrow> u \<notin> set (map (\<lambda>k. if k = u then c else k) ks)"
  by (induction ks) auto

lemma lookupId_None_ids: "k \<notin> set (map id' xs) \<Longrightarrow> lookupId k xs = None"
  by (induction xs) (auto simp: lookupId_def)

lemma reconcile_alt:
  "truthy (message_id data) \<Longrightarrow>
   reconcile userMsg data prev =
     map (\<lambda>msg. if id' msg = id' userMsg then msg\<lparr>id' := message_id data\<rparr> else msg)
         (removeThinking prev)"
  by (simp add: reconcile_def removeThinking_def js_or_def Let_def)

lemma ids_reconcile:
  "truthy (message_id data) \<Longrightarrow>
   map id' (reconcile userMsg data prev) =
     map (\<lambda>k. if k = id' userMsg then message_id data else k) (map id' (removeThinking prev))"
  by (simp add: reconcile_alt comp_def if_distrib [of id'] cong: if_cong)

subsection \<open>The failed submission\<close>

lemma set_foldl_map_set:
  "set (foldl (\<lambda>m e. map_set (fst e) (snd e) m) m es) \<subseteq> set m \<union> set es"
proof (induction es arbitrary: m)
  case Nil
  then show ?case by simp
next
  case (Cons e es)
  have "set (foldl (\<lambda>m e. map_set (fst e) (snd e) m) (map_set (fst e) (snd e) m) es)
          \<subseteq> set (map_set (fst e) (snd e) m) \<union> set es"
    by (rule Cons.IH)
  moreover have "set (map_set (fst e) (snd e) m) \<subseteq> insert e (set m)"
    using set_map_set [of "fst e" "snd e" m] by simp
  ultimately show ?case by auto
qed

lemma set_new_Map: "set (new_Map es) \<subseteq> set es"
  using set_foldl_map_set [of "[]" es] by (simp add: new_Map_def)

lemma values_new_Map_entries: "set (map_values (new_Map (entriesOf prev))) \<subseteq> set prev"
proof
  fix v assume "v \<in> set (map_values (new_Map (entriesOf prev)))"
  then obtain k where "(k, v) \<in> set (new_Map (entriesOf prev))"
    by (auto simp: map_values_def)
  then have "(k, v) \<in> set (entriesOf prev)" using set_new_Map by blast
  then show "v \<in> set prev" by (auto simp: entriesOf_def)
qed

lemma merged_error:
  "merged P now [Some (errorMessage now e)] False prev
     = map_set (id' (errorMessage now e)) (errorMessage now e) (new_Map (entriesOf prev))"
  by (simp add: merged_alt upsert_one_def errorMessage_def ensureDate_def)

lemma upsert_error_small:
  assumes l: "length prev < 50"
  shows "set (upsertMessages P now [Some (errorMessage now e)] False prev)
           = set (map_values (merged P now [Some (errorMessage now e)] False prev))"
proof -
  have "length (new_Map (entriesOf prev)) \<le> length prev"
    using length_new_Map [of "entriesOf prev"] by (simp add: entriesOf_def)
  then have "length (merged P now [Some (errorMessage now e)] False prev) \<le> 50"
    using l length_map_set [of "id' (errorMessage now e)" "errorMessage now e"
        "new_Map (entriesOf prev)"]
    by (simp add: merged_error)
  then have "length (sortByTask (map_values (merged P now [Some (errorMessage now e)] False prev)))
      \<le> 50"
    by (simp add: length_sortByTask map_values_def)
  then show ?thesis
    by (simp add: upsertMessages_nonempty slice_last_all set_sortByTask)
qed

lemma upsert_error_not_thinking:
  assumes nt: "\<forall>m\<in>set prev. \<not> isThinking m"
    and m: "m \<in> set (upsertMessages P now [Some (errorMessage now e)] False prev)"
  shows "\<not> isThinking m"
proof -
  have "m \<in> set (map_values (merged P now [Some (errorMessage now e)] False prev))"
    using m upsertMessages_subset [of "[Some (errorMessage now e)]" P now False prev] by auto
  then obtain k where "(k, m) \<in> set (merged P now [Some (errorMessage now e)] False prev)"
    by (auto simp: map_values_def)
  then have "(k, m) \<in> insert (id' (errorMessage now e), errorMessage now e)
      (set (new_Map (entriesOf prev)))"
    using set_map_set [of "id' (errorMessage now e)" "errorMessage now e"
        "new_Map (entriesOf prev)"]
    by (auto simp: merged_error)
  then have "m = errorMessage now e \<or> m \<in> set (map_values (new_Map (entriesOf prev)))"
    by (force simp: map_values_def)
  then have "m = errorMessage now e \<or> m \<in> set prev"
    using values_new_Map_entries by blast
  then show ?thesis using nt by (auto simp: errorMessage_def)
qed

lemma handleSubmit_resume_thrown:
  "fst (submit_try res userMsg st) = Some e \<Longrightarrow>
   messages (handleSubmit_resume P now res userMsg st)
     = upsertMessages P now [Some (errorMessage now e)] False
         (removeThinking (messages (snd (submit_try res userMsg st))))"
  by (cases "submit_try res userMsg st") (simp add: handleSubmit_resume_def Let_def)

lemma isLoading_handleSubmit_resume: "isLoading (handleSubmit_resume P now res userMsg st) = False"
  by (cases "submit_try res userMsg st")
     (simp add: handleSubmit_resume_def Let_def split: option.splits)

subsection \<open>Polling\<close>

lemma fetch_try_fails: "fetchFails res \<Longrightarrow> \<exists>e. fetch_try P now isInitial res st = Inl e"
  by (cases res) (auto simp: fetchFails_def fetch_try_def split: sum.splits)

lemma fetch_try_succeeds:
  assumes "\<not> fetchFails res"
  obtains ct data where "res = Response ct True (Inr data)" and "\<not> notJson ct"
  using assms by (cases res) (auto simp: fetchFails_def split: sum.splits)

lemma ensureDate_is_date: "ensureDate P now v = JDate (getTime (ensureDate P now v))"
  by (cases v) (auto simp: ensureDate_def getTime_def split: option.splits)

lemma buildAgentMessage_date:
  "buildAgentMessage P now item = Some m \<Longrightarrow> timestamp m = JDate (getTime (timestamp m))"
  using ensureDate_is_date
  by (auto simp: buildAgentMessage_def split: option.splits if_splits)

lemma map_filter_mem: "y \<in> set (List.map_filter f xs) \<Longrightarrow> \<exists>x\<in>set xs. f x = Some y"
  by (auto simp: List.map_filter_def)

lemma normalize_date:
  "m \<in> set (normalize P now data) \<Longrightarrow> timestamp m = JDate (getTime (timestamp m))"
  using map_filter_mem [of m "buildAgentMessage P now"] buildAgentMessage_date
  unfolding normalize_def by blast

lemma fetch_success_state:
  assumes "\<not> notJson ct" and "\<not> abortRef st"
  shows "fetchAgentResponses P now isInitial (Response ct True (Inr data)) st =
     (case normalize P now data of
        [] \<Rightarrow> st\<lparr>historyError := None, historyLoading := False\<rparr>
      | first # rest \<Rightarrow>
          st\<lparr>messages := upsertMessages P now (map Some (normalize P now data)) (\<not> isInitial)
                           (messages st),
             lastFetchTimeRef := Some (getTime (timestamp first)),
             historyError := None, historyLoading := False\<rparr>)"
proof (cases "normalize P now data")
  case Nil
  then show ?thesis using assms
    by (simp add: fetchAgentResponses_def fetch_try_def Let_def)
next
  case (Cons first rest)
  then have "first \<in> set (normalize P now data)" by simp
  then have "timestamp first = JDate (getTime (timestamp first))" by (rule normalize_date)
  then have d: "timestamp first = JDate (getTime (timestamp first))" .
  define t where "t = getTime (timestamp first)"
  have "timestamp first = JDate t" using d by (simp add: t_def)
  then show ?thesis using assms Cons
    by (simp add: fetchAgentResponses_def fetch_try_def Let_def getTime_def)
qed


lemma fetch_failure_state:
  assumes "fetchFails res"
  shows "\<exists>msg. fetchAgentResponses P now isInitial res st =
           (if abortRef st then st
            else st\<lparr>historyError := Some msg, historyLoading := False\<rparr>)"
proof -
  obtain e where "fetch_try P now isInitial res st = Inl e"
    using fetch_try_fails [OF assms] by blast
  then have "fetchAgentResponses P now isInitial res st =
      (if abortRef st then st
       else st\<lparr>historyError := Some (if exn_message e \<noteq> [] then exn_message e
                                        else ''Unable to load agent responses''),
               historyLoading := False\<rparr>)"
    by (simp add: fetchAgentResponses_def Let_def)
  then show ?thesis by (rule exI)
qed

lemma fetch_success_messages:
  assumes "\<not> notJson ct" and "\<not> abortRef st"
  shows "messages (fetchAgentResponses P now isInitial (Response ct True (Inr data)) st) =
     (case normalize P now data of
        [] \<Rightarrow> messages st
      | first # rest \<Rightarrow>
          upsertMessages P now (map Some (normalize P now data)) (\<not> isInitial) (messages st))"
  using assms by (simp add: fetch_success_state split: list.splits)

lemma fetch_success_cursor:
  assumes "\<not> notJson ct" and "\<not> abortRef st"
  shows "lastFetchTimeRef (fetchAgentResponses P now isInitial (Response ct True (Inr data)) st) =
     (case normalize P now data of
        [] \<Rightarrow> lastFetchTimeRef st
      | first # rest \<Rightarrow> Some (getTime (timestamp first)))"
  using assms by (simp add: fetch_success_state split: list.splits)

lemma fetch_success_error:
  assumes "\<not> notJson ct" and "\<not> abortRef st"
  shows "historyError (fetchAgentResponses P now isInitial (Response ct True (Inr data)) st) = None"
  using assms by (simp add: fetch_success_state split: list.splits)

lemma highestOrderingKey_bounded:
  "\<forall>m\<in>set ms. getTime (timestamp m) \<le> t \<Longrightarrow>
   highestOrderingKey ms = None \<or> (\<exists>h. highestOrderingKey ms = Some h \<and> h \<le> t)"
  by (induction ms) (auto split: option.splits)

lemma highestOrderingKey_first:
  assumes "\<forall>m\<in>set rest. getTime (timestamp m) \<le> getTime (timestamp first)"
  shows "highestOrderingKey (first # rest) = Some (getTime (timestamp first))"
  using highestOrderingKey_bounded [OF assms] by auto

subsection \<open>Evaluated instances\<close>

lemma upsert_user_then_agent:
  "upsertMessages noDateParse 200 [Some (agentEvent ''m1'' 50 (JNum 3))] False
     [userMessage 100 ''hi'']
   = [userMessage 100 ''hi'', agentEvent ''m1'' 50 (JNum 3)]"
  by code_simp

lemma merged_user_then_agent:
  "map_values (merged noDateParse 200 [Some (agentEvent ''m1'' 50 (JNum 3))] False
     [userMessage 100 ''hi''])
   = [userMessage 100 ''hi'', agentEvent ''m1'' 50 (JNum 3)]"
  by code_simp

lemma full_store_evicts_error:
  "lookupId (id' (errorMessage 200 networkError))
     (upsertMessages noDateParse 200 [Some (errorMessage 200 networkError)] False fullTask5Store)
   = None"
  by code_simp

lemma full_store_no_thinking: "removeThinking fullTask5Store = fullTask5Store"
  by code_simp

lemma full_store_crowded:
  "50 \<le> length (filter (\<lambda>b. 0 < taskKey b)
     (map_values (merged noDateParse 200 [Some (userMessage 100 ''hi'')] False fullTask5Store)))"
  by code_simp

lemma full_store_holds_user:
  "userMessage 100 ''hi''
     \<in> set (map_values (merged noDateParse 200 [Some (userMessage 100 ''hi'')] False
              fullTask5Store))"
  by code_simp

section \<open>The claims\<close>

text \<open>
  C1. As stated (the stored timestamp never changes, in both modes) the claim fails with
  \<open>restampNew = false\<close>: the loop stores \<open>ensureDate\<close> of the incoming timestamp over
  the old one.
\<close>

theorem ordering_key_overwritten_counterexample:
  "orderingKey (JStr ''m1'') [agentEvent ''m1'' 10 (JNum 1)] = Some (JDate 10)
   \<and> orderingKey (JStr ''m1'')
        (upsertMessages noDateParse 1000 [Some (agentEvent ''m1'' 20 (JNum 1))] False
           [agentEvent ''m1'' 10 (JNum 1)]) = Some (JDate 20)"
  by code_simp

text \<open>
  C1, amended. On a store with one event per id, for an id present before and after the
  call: with \<open>restampNew = true\<close> the stored timestamp is unchanged whatever the incoming
  record carries, and so it is in either mode when the batch does not contain the id;
  with \<open>restampNew = false\<close> an id of the batch gets \<open>ensureDate\<close> of the timestamp of
  its last record in the batch.
\<close>

theorem restamp_keeps_ordering_key:
  assumes d: "distinct (map id' prev)"
    and before: "orderingKey k prev = Some t"
    and after: "orderingKey k (upsertMessages P now incoming r prev) = Some t'"
  shows "(r \<or> lastFor k incoming = None \<longrightarrow> t' = t)
       \<and> (\<not> r \<longrightarrow> (\<forall>msg. lastFor k incoming = Some msg \<longrightarrow> t' = ensureDate P now (timestamp msg)))"
proof (cases "incoming = []")
  case True
  then have "upsertMessages P now incoming r prev = prev" by (simp add: upsertMessages_def)
  moreover have "lastFor k incoming = None"
    using True by (simp add: lastFor_def validIncoming_def List.map_filter_def)
  ultimately show ?thesis using before after by simp
next
  case False
  obtain m where m: "lookupId k prev = Some m" and tm: "timestamp m = t"
    using before by (auto simp: orderingKey_def)
  obtain m' where m': "lookupId k (upsertMessages P now incoming r prev) = Some m'"
    and tm': "timestamp m' = t'"
    using after by (auto simp: orderingKey_def)
  have m0: "map_of (new_Map (entriesOf prev)) k = Some m"
    using d m by (simp add: new_Map_entriesOf map_of_entriesOf)
  have mg: "map_of (merged P now incoming r prev) k = Some m'"
    using lookup_upsert_in_merged [OF False m'] .
  show ?thesis
  proof (cases "lastFor k incoming")
    case None
    then have "m' = m" using mg m0 by (simp add: map_of_merged)
    then show ?thesis using tm tm' None by simp
  next
    case (Some msg)
    then have "m' = msg\<lparr>timestamp := stampFor P now r (new_Map (entriesOf prev)) k msg\<rparr>"
      using mg by (simp add: map_of_merged)
    then have "t' = stampFor P now r (new_Map (entriesOf prev)) k msg"
      using tm' by simp
    then show ?thesis using Some m0 tm by (simp add: stampFor_def map_get_def)
  qed
qed

theorem restamp_keeps_ordering_key_witness:
  "distinct (map id' [agentEvent ''m1'' 10 (JNum 1)])
   \<and> orderingKey (JStr ''m1'') [agentEvent ''m1'' 10 (JNum 1)] = Some (JDate 10)
   \<and> orderingKey (JStr ''m1'')
        (upsertMessages noDateParse 1000 [Some (agentEvent ''m1'' 20 (JNum 1))] True
           [agentEvent ''m1'' 10 (JNum 1)]) = Some (JDate 10)"
proof -
  have a: "distinct (map id' [agentEvent ''m1'' 10 (JNum 1)])" by simp
  have b: "orderingKey (JStr ''m1'') [agentEvent ''m1'' 10 (JNum 1)] = Some (JDate 10)"
    by code_simp
  have c: "orderingKey (JStr ''m1'')
        (upsertMessages noDateParse 1000 [Some (agentEvent ''m1'' 20 (JNum 1))] True
           [agentEvent ''m1'' 10 (JNum 1)]) = Some (JDate 10)"
    by code_simp
  show ?thesis using restamp_keeps_ordering_key [OF a b c] a b c by simp
qed

text \<open>
  C2. As stated (task ordinal when both events have one, else the timestamp, then the id)
  the claim fails. Two events without a task ordinal are left in the order of insertion
  into the map, here the later timestamp first, and the same two events inserted the
  other way round come out the other way round. The earlier variant of the component,
  which sorts by timestamp alone, puts task 2 before task 1.
\<close>

theorem view_order_counterexample:
  "upsertMessages noDateParse 1000
      [Some (agentEvent ''a'' 20 JUndefined), Some (agentEvent ''b'' 10 JUndefined)] False []
     = [agentEvent ''a'' 20 JUndefined, agentEvent ''b'' 10 JUndefined]
   \<and> spec_before (agentEvent ''b'' 10 JUndefined) (agentEvent ''a'' 20 JUndefined)
   \<and> upsertMessages noDateParse 1000
      [Some (agentEvent ''b'' 10 JUndefined), Some (agentEvent ''a'' 20 JUndefined)] False []
     = [agentEvent ''b'' 10 JUndefined, agentEvent ''a'' 20 JUndefined]
   \<and> sortByTimestamp [agentEvent ''c'' 10 (JNum 2), agentEvent ''d'' 20 (JNum 1)]
     = [agentEvent ''c'' 10 (JNum 2), agentEvent ''d'' 20 (JNum 1)]
   \<and> spec_before (agentEvent ''d'' 20 (JNum 1)) (agentEvent ''c'' 10 (JNum 2))"
  by code_simp

text \<open>
  C2, amended. The ordered view is the stable sort of the map's values by the single key
  \<^verbatim>\<open>parseInt(taskId) || 0\<close>, ascending: a permutation of the values, sorted by that key,
  events of equal key in the map's insertion order (no timestamp fallback, no id
  tie-break). It is a function of the value list; sorting again changes nothing, and the
  list a merge stores is already in view order.
\<close>

theorem view_is_stable_sort_by_task:
  "sorted (map taskKey (sortByTask vs))
   \<and> mset (sortByTask vs) = mset vs
   \<and> filter (\<lambda>y. taskKey y = k) (sortByTask vs) = filter (\<lambda>y. taskKey y = k) vs
   \<and> sortByTask (sortByTask vs) = sortByTask vs
   \<and> sorted (map taskKey (upsertMessages P now (x # xs) r prev))
   \<and> slice_last 50 (sortByTask (upsertMessages P now (x # xs) r prev))
       = upsertMessages P now (x # xs) r prev"
proof -
  have a: "sorted (map taskKey (sortByTask vs))" by (rule sorted_sortByTask)
  have b: "mset (sortByTask vs) = mset vs" by (simp add: sortByTask_def)
  have c: "filter (\<lambda>y. taskKey y = k) (sortByTask vs) = filter (\<lambda>y. taskKey y = k) vs"
    unfolding sortByTask_def by (rule sort_key_stable)
  have d: "sortByTask (sortByTask vs) = sortByTask vs"
    by (rule sortByTask_sorted) (rule sorted_sortByTask)
  have e: "sorted (map taskKey (upsertMessages P now (x # xs) r prev))"
    by (rule sorted_upsertMessages) simp
  have "length (upsertMessages P now (x # xs) r prev) \<le> 50"
    by (simp add: upsertMessages_nonempty length_slice_last)
  then have f: "slice_last 50 (sortByTask (upsertMessages P now (x # xs) r prev))
       = upsertMessages P now (x # xs) r prev"
    using e by (simp add: sortByTask_sorted slice_last_all)
  show ?thesis using a b c d e f by blast
qed

text \<open>
  C3. As stated (for every batch and both modes the second call changes nothing) the
  claim fails in each mode. With \<open>restampNew = false\<close> an event that carries no
  timestamp is stamped again by \<open>ensureDate\<close> at the second call. With
  \<open>restampNew = true\<close>, on a store of 49 events of task 5, a batch of two new events of
  task 1 loses its first event to the retention window at the first call; the second
  call sees it as new again, appends it, and evicts the other one instead.
\<close>

theorem upsert_twice_counterexample:
  "upsertMessages noDateParse 2000 untimedBatch False
       (upsertMessages noDateParse 1000 untimedBatch False [])
     \<noteq> upsertMessages noDateParse 1000 untimedBatch False []
   \<and> upsertMessages noDateParse 2000 oldTaskBatch True
       (upsertMessages noDateParse 1000 oldTaskBatch True task5Store)
     \<noteq> upsertMessages noDateParse 1000 oldTaskBatch True task5Store"
  by code_simp

text \<open>
  C3, amended. When the first call kept every event of the batch (none was evicted by the
  retention window) and either \<open>restampNew = true\<close> or every event of the batch carries a
  time, a second call with the same batch, at any later clock reading, leaves the store
  as the first call left it.
\<close>

theorem second_upsert_noop:
  assumes kept: "\<forall>msg\<in>set (validIncoming B).
                   lookupId (id' msg) (upsertMessages P now1 B r prev) \<noteq> None"
    and times: "r \<or> (\<forall>msg\<in>set (validIncoming B). carriesTime P (timestamp msg))"
  shows "upsertMessages P now2 B r (upsertMessages P now1 B r prev)
           = upsertMessages P now1 B r prev"
proof (cases "B = []")
  case True
  then show ?thesis by (simp add: upsertMessages_def)
next
  case False
  let ?S = "upsertMessages P now1 B r prev"
  let ?M0 = "new_Map (entriesOf prev)"
  have dS: "distinct (map id' ?S)" using False by (rule distinct_upsertMessages)
  have sS: "sorted (map taskKey ?S)" using False by (rule sorted_upsertMessages)
  have lS: "length ?S \<le> 50" using False by (simp add: upsertMessages_nonempty length_slice_last)
  have nm: "new_Map (entriesOf ?S) = entriesOf ?S" using dS by (rule new_Map_entriesOf)
  let ?M2 = "foldl (upsert_one P now2 r) (entriesOf ?S) B"
  have m2: "merged P now2 B r ?S = ?M2" by (simp add: merged_alt nm)
  have keys: "map fst ?M2 = map fst (entriesOf ?S)"
  proof (rule keys_foldl_upsert_present, rule ballI)
    fix msg assume "msg \<in> set (validIncoming B)"
    then have "lookupId (id' msg) ?S \<noteq> None" using kept by blast
    then have "id' msg \<in> id' ` set ?S" by (simp add: lookupId_None_iff)
    then show "id' msg \<in> fst ` set (entriesOf ?S)"
      by (metis keys_entriesOf list.set_map)
  qed
  have dk: "distinct (map fst ?M2)" using keys dS by (simp add: keys_entriesOf)
  have vals: "map_of ?M2 k = map_of (entriesOf ?S) k" for k
  proof (cases "lastFor k B")
    case None
    then show ?thesis by (simp add: map_of_foldl_upsert)
  next
    case (Some msg)
    have mv: "msg \<in> set (validIncoming B)" and ik: "id' msg = k"
      using lastFor_SomeD [OF Some] by simp_all
    obtain v where v: "lookupId k ?S = Some v" using kept mv ik by auto
    have "map_of (merged P now1 B r prev) k = Some v"
      using lookup_upsert_in_merged [OF False v] .
    then have veq: "v = msg\<lparr>timestamp := stampFor P now1 r ?M0 k msg\<rparr>"
      using Some by (simp add: map_of_merged)
    have "stampFor P now2 r (entriesOf ?S) k msg = timestamp v"
    proof (cases r)
      case True
      then show ?thesis using v by (simp add: stampFor_def map_get_def map_of_entriesOf)
    next
      case False
      then have "carriesTime P (timestamp msg)" using times mv by blast
      then have "ensureDate P now2 (timestamp msg) = ensureDate P now1 (timestamp msg)"
        by (rule ensureDate_carried)
      then show ?thesis using False veq by (simp add: stampFor_def)
    qed
    then have "msg\<lparr>timestamp := stampFor P now2 r (entriesOf ?S) k msg\<rparr> = v"
      using veq by simp
    then show ?thesis using Some v by (simp add: map_of_foldl_upsert map_of_entriesOf)
  qed
  have "?M2 = entriesOf ?S"
    using keys dk vals by (intro alist_eqI) simp_all
  then have "map_values (merged P now2 B r ?S) = ?S"
    using m2 by (simp add: values_entriesOf)
  then have "upsertMessages P now2 B r ?S = slice_last 50 (sortByTask ?S)"
    using False by (simp add: upsertMessages_nonempty)
  then show ?thesis using sS lS by (simp add: sortByTask_sorted slice_last_all)
qed

theorem second_upsert_noop_witness:
  "lookupId (JStr ''m1'')
      (upsertMessages noDateParse 1000 [Some (agentEvent ''m1'' 10 (JNum 1))] True []) \<noteq> None
   \<and> upsertMessages noDateParse 2000 [Some (agentEvent ''m1'' 10 (JNum 1))] True
        (upsertMessages noDateParse 1000 [Some (agentEvent ''m1'' 10 (JNum 1))] True [])
     = upsertMessages noDateParse 1000 [Some (agentEvent ''m1'' 10 (JNum 1))] True []"
proof -
  have v: "validIncoming [Some (agentEvent ''m1'' 10 (JNum 1))] = [agentEvent ''m1'' 10 (JNum 1)]"
    by code_simp
  have l: "lookupId (JStr ''m1'')
      (upsertMessages noDateParse 1000 [Some (agentEvent ''m1'' 10 (JNum 1))] True []) \<noteq> None"
    by code_simp
  have i: "id' (agentEvent ''m1'' 10 (JNum 1)) = JStr ''m1''"
    by (simp add: agentEvent_def)
  have kept: "\<forall>msg\<in>set (validIncoming [Some (agentEvent ''m1'' 10 (JNum 1))]).
      lookupId (id' msg)
        (upsertMessages noDateParse 1000 [Some (agentEvent ''m1'' 10 (JNum 1))] True []) \<noteq> None"
    using l by (simp add: v i)
  have times: "True \<or> (\<forall>msg\<in>set (validIncoming [Some (agentEvent ''m1'' 10 (JNum 1))]).
      carriesTime noDateParse (timestamp msg))"
    by simp
  show ?thesis
    using second_upsert_noop [OF kept times, of 2000] l by simp
qed

text \<open>
  C4. As stated (one event per id at every point, also when a poll has already inserted
  the canonical id) the claim fails. The user submits at time 100; a poll at 150 delivers
  an event with the id \<^verbatim>\<open>m-500\<close>; the submission is then acknowledged with
  \<^verbatim>\<open>message_id = m-500\<close>. The updater renames the optimistic event without looking
  for the id, and the list holds two events with the id \<^verbatim>\<open>m-500\<close>.
\<close>

theorem reconcile_duplicate_counterexample:
  "map id' (messages
      (handleSubmit_resume noDateParse 200
         (Response (Some ''application/json'') True (Inr (ackOf ''m-500'')))
         (userMessage 100 ''do it'')
         (fetchAgentResponses noDateParse 150 False (pollOf [rawItem ''m-500'' 120])
            (handleSubmit_begin noDateParse 100 readyState))))
   = [JStr ''m-500'', JStr ''m-500'']"
  by code_simp

text \<open>
  C4, amended. On a store with one event per id that holds the optimistic event and no
  event with the canonical id yet, the acknowledgement with a non-empty canonical id
  leaves no event under the temporary id, the optimistic event under the canonical id
  with its timestamp and at its position, and one event per id.
\<close>

theorem reconcile_replaces_temporary_id:
  assumes d: "distinct (map id' prev)"
    and u: "lookupId (id' userMsg) prev = Some u"
    and nt: "\<not> isThinking u"
    and c: "truthy (message_id data)"
    and fresh: "lookupId (message_id data) prev = None"
  shows "lookupId (id' userMsg) (reconcile userMsg data prev) = None
       \<and> lookupId (message_id data) (reconcile userMsg data prev)
           = Some (u\<lparr>id' := message_id data\<rparr>)
       \<and> orderingKey (message_id data) (reconcile userMsg data prev)
           = orderingKey (id' userMsg) prev
       \<and> distinct (map id' (reconcile userMsg data prev))
       \<and> map id' (reconcile userMsg data prev)
           = map (\<lambda>k. if k = id' userMsg then message_id data else k)
               (map id' (removeThinking prev))"
proof -
  let ?uid = "id' userMsg" and ?c = "message_id data"
  let ?g = "\<lambda>k. if k = ?uid then ?c else k"
  let ?ks = "map id' (removeThinking prev)"
  let ?R = "reconcile userMsg data prev"
  have um: "u \<in> set prev" and ui: "id' u = ?uid"
    using lookupId_SomeD [OF u] by simp_all
  have "?c \<notin> id' ` set prev" using fresh by (simp add: lookupId_None_iff)
  then have cn: "?c \<notin> set (map id' prev)" by simp
  have "id' u \<in> set (map id' prev)" using um by simp
  then have uin: "?uid \<in> set (map id' prev)" using ui by simp
  have "?uid \<noteq> ?c" using cn uin subset_refl by (rule notin_neq)
  then have neq: "?c \<noteq> ?uid" by (rule not_sym)
  have ids: "map id' ?R = map ?g ?ks" using c by (rule ids_reconcile)
  have "set (removeThinking prev) \<subseteq> set prev" by (simp add: removeThinking_def)
  then have sub: "set ?ks \<subseteq> set (map id' prev)" by auto
  have dks: "distinct ?ks" using d by (simp add: removeThinking_def distinct_ids_filter)
  have inj: "inj_on ?g (set ?ks)"
  proof (rule inj_onI)
    fix a b assume a: "a \<in> set ?ks" and b: "b \<in> set ?ks" and e: "?g a = ?g b"
    have "a \<noteq> ?c" using cn a sub by (rule notin_neq)
    moreover have "b \<noteq> ?c" using cn b sub by (rule notin_neq)
    ultimately show "a = b" using e by (simp split: if_splits)
  qed
  have "distinct (map ?g ?ks)" using dks inj by (rule distinct_map_inj)
  then have dR: "distinct (map id' ?R)" by (simp only: ids)
  have "?uid \<notin> set (map ?g ?ks)" using neq by (rule swap_notin)
  then have "?uid \<notin> set (map id' ?R)" by (simp only: ids not_False_eq_True)
  then have gone: "lookupId ?uid ?R = None" by (rule lookupId_None_ids)
  have "u \<in> set (removeThinking prev)" using um nt by (simp add: removeThinking_def)
  then have "u\<lparr>id' := ?c\<rparr> \<in> set ?R" using c ui by (force simp: reconcile_alt)
  then have "lookupId (id' (u\<lparr>id' := ?c\<rparr>)) ?R = Some (u\<lparr>id' := ?c\<rparr>)"
    using dR by (intro lookupId_distinct_mem)
  then have there: "lookupId ?c ?R = Some (u\<lparr>id' := ?c\<rparr>)" by simp
  have key: "orderingKey ?c ?R = orderingKey ?uid prev"
    using there u by (simp add: orderingKey_def)
  show ?thesis using gone there key dR ids by blast
qed

theorem reconcile_replaces_temporary_id_witness:
  "distinct (map id' (messages (handleSubmit_begin noDateParse 100 readyState)))
   \<and> lookupId (id' (userMessage 100 ''do it'')) (messages (handleSubmit_begin noDateParse 100 readyState))
       = Some (userMessage 100 ''do it'')
   \<and> \<not> isThinking (userMessage 100 ''do it'')
   \<and> truthy (message_id (ackOf ''m-500''))
   \<and> lookupId (message_id (ackOf ''m-500'')) (messages (handleSubmit_begin noDateParse 100 readyState)) = None
   \<and> lookupId (id' (userMessage 100 ''do it''))
        (reconcile (userMessage 100 ''do it'') (ackOf ''m-500'')
           (messages (handleSubmit_begin noDateParse 100 readyState))) = None
   \<and> orderingKey (JStr ''m-500'')
        (reconcile (userMessage 100 ''do it'') (ackOf ''m-500'')
           (messages (handleSubmit_begin noDateParse 100 readyState))) = Some (JDate 100)"
proof -
  have a: "distinct (map id' (messages (handleSubmit_begin noDateParse 100 readyState)))"
    by code_simp
  have b: "lookupId (id' (userMessage 100 ''do it''))
      (messages (handleSubmit_begin noDateParse 100 readyState)) = Some (userMessage 100 ''do it'')"
    by code_simp
  have c: "\<not> isThinking (userMessage 100 ''do it'')" by (simp add: userMessage_def)
  have d: "truthy (message_id (ackOf ''m-500''))" by (simp add: ackOf_def)
  have e: "lookupId (message_id (ackOf ''m-500''))
      (messages (handleSubmit_begin noDateParse 100 readyState)) = None"
    by code_simp
  have f: "orderingKey (id' (userMessage 100 ''do it''))
      (messages (handleSubmit_begin noDateParse 100 readyState)) = Some (JDate 100)"
    by code_simp
  have g: "message_id (ackOf ''m-500'') = JStr ''m-500''" by (simp add: ackOf_def)
  show ?thesis
    using reconcile_replaces_temporary_id [OF a b c d e] a b c d e f g by simp
qed

text \<open>
  C5. Bounded retention. Every update of the message list is an
  \<open>upsertMessages\<close> call or one of the two updaters of \<open>handleSubmit\<close>. After any
  sequence of them from the initial empty list the store holds at most 50 events, and a
  merge of a non-empty batch leaves exactly the last 50 entries of the ordered view of the
  merged map (all of them when there are fewer).
\<close>

theorem retention_bound:
  "length (run_ops P ops) \<le> 50
   \<and> upsertMessages P now (x # xs) r prev
       = slice_last 50 (sortByTask (map_values (merged P now (x # xs) r prev)))
   \<and> length (upsertMessages P now (x # xs) r prev)
       = min 50 (length (merged P now (x # xs) r prev))"
proof -
  have a: "length (run_ops P ops) \<le> 50"
    by (simp add: run_ops_def length_foldl_apply_op)
  have b: "upsertMessages P now (x # xs) r prev
       = slice_last 50 (sortByTask (map_values (merged P now (x # xs) r prev)))"
    by (rule upsertMessages_nonempty) simp
  have c: "length (upsertMessages P now (x # xs) r prev)
       = min 50 (length (merged P now (x # xs) r prev))"
    by (simp add: b length_slice_last length_sortByTask map_values_def)
  show ?thesis using a b c by blast
qed

text \<open>
  C6. As stated (with \<open>restampNew = true\<close> a new id gets the timestamp it carries) the
  claim fails: the new event below carries the time 5 and is stored with the clock
  reading 1000.
\<close>

theorem new_id_restamped_counterexample:
  "orderingKey (JStr ''m3'') [] = None
   \<and> timestamp (agentEvent ''m3'' 5 (JNum 1)) = JDate 5
   \<and> orderingKey (JStr ''m3'')
        (upsertMessages noDateParse 1000 [Some (agentEvent ''m3'' 5 (JNum 1))] True [])
       = Some (JDate 1000)"
  by code_simp

text \<open>
  C6, amended. An id that is new to the store and present after the call is stamped with
  the client's current time whenever \<open>restampNew = true\<close>, whether or not the incoming
  event carries a time; the carried time is used (through \<open>ensureDate\<close>, which falls back
  to the current time when there is none) with \<open>restampNew = false\<close>.
\<close>

theorem new_id_stamp:
  assumes new: "orderingKey k prev = None"
    and after: "orderingKey k (upsertMessages P now incoming r prev) = Some t'"
  shows "(r \<longrightarrow> t' = JDate now)
       \<and> (\<not> r \<longrightarrow> (\<exists>msg. lastFor k incoming = Some msg \<and> t' = ensureDate P now (timestamp msg)))"
proof (cases "incoming = []")
  case True
  then have "upsertMessages P now incoming r prev = prev" by (simp add: upsertMessages_def)
  then show ?thesis using new after by simp
next
  case False
  have n: "lookupId k prev = None" using new by (simp add: orderingKey_def)
  obtain m' where m': "lookupId k (upsertMessages P now incoming r prev) = Some m'"
    and tm': "timestamp m' = t'"
    using after by (auto simp: orderingKey_def)
  have m0: "map_of (new_Map (entriesOf prev)) k = None"
    using n by (rule map_of_new_Map_None)
  have mg: "map_of (merged P now incoming r prev) k = Some m'"
    using lookup_upsert_in_merged [OF False m'] .
  show ?thesis
  proof (cases "lastFor k incoming")
    case None
    then show ?thesis using mg m0 by (simp add: map_of_merged)
  next
    case (Some msg)
    then have "m' = msg\<lparr>timestamp := stampFor P now r (new_Map (entriesOf prev)) k msg\<rparr>"
      using mg by (simp add: map_of_merged)
    then have "t' = stampFor P now r (new_Map (entriesOf prev)) k msg"
      using tm' by simp
    then show ?thesis using Some m0 by (simp add: stampFor_def map_get_def)
  qed
qed

theorem new_id_stamp_witness:
  "orderingKey (JStr ''m3'') [] = None
   \<and> orderingKey (JStr ''m3'')
        (upsertMessages noDateParse 1000 [Some (agentEvent ''m3'' 5 (JNum 1))] True [])
       = Some (JDate 1000)"
proof -
  have a: "orderingKey (JStr ''m3'') [] = None" by code_simp
  have b: "orderingKey (JStr ''m3'')
        (upsertMessages noDateParse 1000 [Some (agentEvent ''m3'' 5 (JNum 1))] True [])
       = Some (JDate 1000)"
    by code_simp
  show ?thesis using new_id_stamp [OF a b] a b by simp
qed

text \<open>
  C7. A poll that fails (network error, content type not JSON, unparsable body or a
  failing status) leaves the message list and the cursor, hence the \<^verbatim>\<open>since\<close> of
  the next request, as they were, and sets the error indicator instead. The next
  successful poll clears the indicator and leaves the list and the cursor it would have
  left had the failed poll never happened, with one event per id. This is of the mounted
  component: \<open>abortRef\<close> is set by the cleanup of the effect alone, and a poll that
  settles after it changes nothing at all.
\<close>

theorem failed_poll:
  assumes fails: "fetchFails res"
  shows "messages (fetchAgentResponses P now isInitial res st) = messages st
     \<and> lastFetchTimeRef (fetchAgentResponses P now isInitial res st) = lastFetchTimeRef st
     \<and> request_since False (fetchAgentResponses P now isInitial res st) = request_since False st
     \<and> (\<not> abortRef st \<longrightarrow> historyError (fetchAgentResponses P now isInitial res st) \<noteq> None)
     \<and> (abortRef st \<longrightarrow> fetchAgentResponses P now isInitial res st = st)
     \<and> (\<not> fetchFails res2 \<and> \<not> abortRef st \<longrightarrow>
          historyError (fetchAgentResponses P now2 isInitial2 res2
                          (fetchAgentResponses P now isInitial res st)) = None
          \<and> messages (fetchAgentResponses P now2 isInitial2 res2
                          (fetchAgentResponses P now isInitial res st))
              = messages (fetchAgentResponses P now2 isInitial2 res2 st)
          \<and> lastFetchTimeRef (fetchAgentResponses P now2 isInitial2 res2
                          (fetchAgentResponses P now isInitial res st))
              = lastFetchTimeRef (fetchAgentResponses P now2 isInitial2 res2 st)
          \<and> (distinct (map id' (messages st)) \<longrightarrow>
                distinct (map id' (messages (fetchAgentResponses P now2 isInitial2 res2
                          (fetchAgentResponses P now isInitial res st))))))"
proof -
  let ?st' = "fetchAgentResponses P now isInitial res st"
  obtain msg where st': "?st' = (if abortRef st then st
            else st\<lparr>historyError := Some msg, historyLoading := False\<rparr>)"
    using fetch_failure_state [OF fails] by blast
  have a: "messages ?st' = messages st" by (simp add: st')
  have b: "lastFetchTimeRef ?st' = lastFetchTimeRef st" by (simp add: st')
  have c: "request_since False ?st' = request_since False st"
    by (simp add: request_since_def b)
  have d: "historyError ?st' \<noteq> None" if "\<not> abortRef st" using that by (simp add: st')
  have e: "?st' = st" if "abortRef st" using that by (simp add: st')
  have ab: "abortRef ?st' = abortRef st" by (simp add: st')
  have f: "historyError (fetchAgentResponses P now2 isInitial2 res2 ?st') = None
          \<and> messages (fetchAgentResponses P now2 isInitial2 res2 ?st')
              = messages (fetchAgentResponses P now2 isInitial2 res2 st)
          \<and> lastFetchTimeRef (fetchAgentResponses P now2 isInitial2 res2 ?st')
              = lastFetchTimeRef (fetchAgentResponses P now2 isInitial2 res2 st)
          \<and> (distinct (map id' (messages st)) \<longrightarrow>
                distinct (map id' (messages (fetchAgentResponses P now2 isInitial2 res2 ?st'))))"
    if ok: "\<not> fetchFails res2" and na: "\<not> abortRef st"
  proof -
    obtain ct data where r2: "res2 = Response ct True (Inr data)" and j: "\<not> notJson ct"
      using ok by (rule fetch_try_succeeds)
    have na': "\<not> abortRef ?st'" using na ab by simp
    have f1: "historyError (fetchAgentResponses P now2 isInitial2 res2 ?st') = None"
      unfolding r2 using j na' by (rule fetch_success_error)
    have f2: "messages (fetchAgentResponses P now2 isInitial2 res2 ?st')
              = messages (fetchAgentResponses P now2 isInitial2 res2 st)"
      unfolding r2 by (simp add: fetch_success_messages [OF j na'] fetch_success_messages [OF j na] a
          cong: list.case_cong)
    have f3: "lastFetchTimeRef (fetchAgentResponses P now2 isInitial2 res2 ?st')
              = lastFetchTimeRef (fetchAgentResponses P now2 isInitial2 res2 st)"
      unfolding r2 by (simp add: fetch_success_cursor [OF j na'] fetch_success_cursor [OF j na] b
          cong: list.case_cong)
    have m2: "messages (fetchAgentResponses P now2 isInitial2 res2 ?st') =
        (case normalize P now2 data of
           [] \<Rightarrow> messages st
         | first # rest \<Rightarrow>
             upsertMessages P now2 (map Some (normalize P now2 data)) (\<not> isInitial2)
               (messages st))"
      using f2 by (simp add: r2 fetch_success_messages [OF j na])
    have f4: "distinct (map id' (messages (fetchAgentResponses P now2 isInitial2 res2 ?st')))"
      if ds: "distinct (map id' (messages st))"
    proof (cases "normalize P now2 data")
      case Nil
      then show ?thesis using ds by (simp add: m2)
    next
      case (Cons first rest)
      then have "map Some (normalize P now2 data) \<noteq> []" by simp
      then have "distinct (map id' (upsertMessages P now2 (map Some (normalize P now2 data))
          (\<not> isInitial2) (messages st)))"
        by (rule distinct_upsertMessages)
      then show ?thesis using Cons by (simp add: m2)
    qed
    show ?thesis using f1 f2 f3 f4 by blast
  qed
  show ?thesis using a b c d e f by blast
qed

theorem failed_poll_witness:
  "fetchFails (Rejected networkError :: responses_body fetch_result)
   \<and> \<not> abortRef readyState
   \<and> \<not> fetchFails (pollOf [rawItem ''r1'' 10])
   \<and> distinct (map id' (messages readyState))
   \<and> messages (fetchAgentResponses noDateParse 1000 False (Rejected networkError) readyState) = []
   \<and> request_since False
        (fetchAgentResponses noDateParse 1000 False (Rejected networkError) readyState) = None
   \<and> historyError (fetchAgentResponses noDateParse 1000 False (Rejected networkError) readyState)
       = Some ''Failed to fetch''
   \<and> historyError (fetchAgentResponses noDateParse 2000 False (pollOf [rawItem ''r1'' 10])
        (fetchAgentResponses noDateParse 1000 False (Rejected networkError) readyState)) = None
   \<and> map id' (messages (fetchAgentResponses noDateParse 2000 False (pollOf [rawItem ''r1'' 10])
        (fetchAgentResponses noDateParse 1000 False (Rejected networkError) readyState)))
       = [JStr ''r1'']"
proof -
  have a: "fetchFails (Rejected networkError :: responses_body fetch_result)"
    by (simp add: fetchFails_def)
  have b: "\<not> abortRef readyState" by (simp add: readyState_def)
  have c: "\<not> fetchFails (pollOf [rawItem ''r1'' 10])" by code_simp
  have d: "distinct (map id' (messages readyState))" by (simp add: readyState_def)
  have e: "historyError (fetchAgentResponses noDateParse 1000 False (Rejected networkError)
      readyState) = Some ''Failed to fetch''"
    by code_simp
  have f: "messages readyState = []" "request_since False readyState = None"
    by (simp_all add: readyState_def request_since_def)
  have g: "map id' (messages (fetchAgentResponses noDateParse 2000 False
      (pollOf [rawItem ''r1'' 10]) readyState)) = [JStr ''r1'']"
    by code_simp
  show ?thesis
    using failed_poll [OF a, of noDateParse 1000 False readyState "pollOf [rawItem ''r1'' 10]"
        2000 False] a b c d e f g
    by simp
qed

text \<open>
  C8. As stated (the optimistic event is removed and an error event is inserted) the
  claim fails. After a network failure the user's message is still in the store under
  its temporary id: the \<^verbatim>\<open>catch\<close> block filters the placeholder only. And on a store
  of 50 events of task 5 the error event, whose sort key is 0, is merged and cut by the
  retention window in the same call.
\<close>

theorem failed_submission_counterexample:
  "lookupId (JStr ''user-100'')
      (messages (handleSubmit_resume noDateParse 200 (Rejected networkError)
         (userMessage 100 ''do it'') (handleSubmit_begin noDateParse 100 readyState)))
     = Some (userMessage 100 ''do it'')
   \<and> lookupId (id' (errorMessage 200 networkError))
      (messages (handleSubmit_resume noDateParse 200 (Rejected networkError)
         (userMessage 100 ''do it'') (readyState\<lparr>messages := fullTask5Store\<rparr>)))
     = None"
proof -
  have a: "lookupId (JStr ''user-100'')
      (messages (handleSubmit_resume noDateParse 200 (Rejected networkError)
         (userMessage 100 ''do it'') (handleSubmit_begin noDateParse 100 readyState)))
     = Some (userMessage 100 ''do it'')"
    by code_simp
  have "fst (submit_try (Rejected networkError) (userMessage 100 ''do it'')
      (readyState\<lparr>messages := fullTask5Store\<rparr>)) = Some networkError"
    by (simp add: submit_try_def)
  then have "messages (handleSubmit_resume noDateParse 200 (Rejected networkError)
         (userMessage 100 ''do it'') (readyState\<lparr>messages := fullTask5Store\<rparr>))
     = upsertMessages noDateParse 200 [Some (errorMessage 200 networkError)] False
         (removeThinking (messages (snd (submit_try (Rejected networkError)
            (userMessage 100 ''do it'') (readyState\<lparr>messages := fullTask5Store\<rparr>)))))"
    by (rule handleSubmit_resume_thrown)
  then have "messages (handleSubmit_resume noDateParse 200 (Rejected networkError)
         (userMessage 100 ''do it'') (readyState\<lparr>messages := fullTask5Store\<rparr>))
     = upsertMessages noDateParse 200 [Some (errorMessage 200 networkError)] False fullTask5Store"
    by (simp add: submit_try_def full_store_no_thinking)
  then show ?thesis using a full_store_evicts_error by simp
qed

text \<open>
  C8, amended. When the submission fails, no "thinking" placeholder is left and the
  loading flag is cleared; a system event with \<open>isError\<close>, stamped with the current time,
  is merged through \<open>upsertMessages\<close> and is in the store when fewer than 50 events
  remained; the other events that were there, the optimistic user event among them, are
  not removed. A rejected request leaves the store as it was up to that point.
\<close>

theorem failed_submission:
  assumes thrown: "fst (submit_try res userMsg st) = Some e"
  shows "list_all (\<lambda>m. \<not> isThinking m) (messages (handleSubmit_resume P now res userMsg st))
     \<and> isLoading (handleSubmit_resume P now res userMsg st) = False
     \<and> (length (removeThinking (messages (snd (submit_try res userMsg st)))) < 50 \<longrightarrow>
          lookupId (id' (errorMessage now e)) (messages (handleSubmit_resume P now res userMsg st))
            = Some (errorMessage now e))
     \<and> (length (removeThinking (messages (snd (submit_try res userMsg st)))) < 50
          \<and> distinct (map id' (messages (snd (submit_try res userMsg st)))) \<longrightarrow>
          (\<forall>m\<in>set (messages (snd (submit_try res userMsg st))).
             \<not> isThinking m \<and> id' m \<noteq> id' (errorMessage now e) \<longrightarrow>
             m \<in> set (messages (handleSubmit_resume P now res userMsg st))))
     \<and> snd (submit_try (Rejected e0) userMsg st) = st"
proof -
  let ?prev = "removeThinking (messages (snd (submit_try res userMsg st)))"
  let ?err = "errorMessage now e"
  let ?R = "messages (handleSubmit_resume P now res userMsg st)"
  let ?M = "merged P now [Some ?err] False ?prev"
  have R: "?R = upsertMessages P now [Some ?err] False ?prev"
    using thrown by (rule handleSubmit_resume_thrown)
  have nt: "\<forall>m\<in>set ?prev. \<not> isThinking m" by (simp add: removeThinking_def)
  have a: "list_all (\<lambda>m. \<not> isThinking m) ?R"
    unfolding list_all_iff R using upsert_error_not_thinking [OF nt] by blast
  have b: "isLoading (handleSubmit_resume P now res userMsg st) = False"
    by (rule isLoading_handleSubmit_resume)
  have dR: "distinct (map id' ?R)" unfolding R by (rule distinct_upsertMessages) simp
  have c: "lookupId (id' ?err) ?R = Some ?err" if l: "length ?prev < 50"
  proof -
    have "(id' ?err, ?err) \<in> set ?M" by (simp add: merged_error map_set_mem)
    then have "?err \<in> set (map_values ?M)" by (force simp: map_values_def)
    then have "?err \<in> set ?R" using upsert_error_small [OF l] R by simp
    then show ?thesis using dR by (rule lookupId_distinct_mem [rotated])
  qed
  have d: "m \<in> set ?R"
    if l: "length ?prev < 50"
      and dp: "distinct (map id' (messages (snd (submit_try res userMsg st))))"
      and m: "m \<in> set (messages (snd (submit_try res userMsg st)))"
      and mt: "\<not> isThinking m" and mi: "id' m \<noteq> id' ?err" for m
  proof -
    have "distinct (map id' ?prev)" using dp by (simp add: removeThinking_def distinct_ids_filter)
    then have nm: "new_Map (entriesOf ?prev) = entriesOf ?prev" by (rule new_Map_entriesOf)
    have "m \<in> set ?prev" using m mt by (simp add: removeThinking_def)
    then have "(id' m, m) \<in> set (entriesOf ?prev)" by (simp add: entriesOf_def)
    then have "(id' m, m) \<in> set (map_set (id' ?err) ?err (entriesOf ?prev))"
      using mi by (intro map_set_keeps) simp_all
    then have "(id' m, m) \<in> set ?M" by (simp add: merged_error nm)
    then have "m \<in> set (map_values ?M)" by (force simp: map_values_def)
    then show ?thesis using upsert_error_small [OF l] R by simp
  qed
  have f: "snd (submit_try (Rejected e0) userMsg st) = st" by (simp add: submit_try_def)
  show ?thesis using a b c d f by blast
qed


theorem failed_submission_witness:
  "fst (submit_try (Rejected networkError) (userMessage 100 ''do it'')
          (handleSubmit_begin noDateParse 100 readyState)) = Some networkError
   \<and> length (removeThinking (messages (handleSubmit_begin noDateParse 100 readyState))) < 50
   \<and> distinct (map id' (messages (handleSubmit_begin noDateParse 100 readyState)))
   \<and> userMessage 100 ''do it'' \<in> set (messages (handleSubmit_begin noDateParse 100 readyState))
   \<and> lookupId (id' (errorMessage 200 networkError))
        (messages (handleSubmit_resume noDateParse 200 (Rejected networkError)
           (userMessage 100 ''do it'') (handleSubmit_begin noDateParse 100 readyState)))
       = Some (errorMessage 200 networkError)
   \<and> userMessage 100 ''do it''
        \<in> set (messages (handleSubmit_resume noDateParse 200 (Rejected networkError)
             (userMessage 100 ''do it'') (handleSubmit_begin noDateParse 100 readyState)))
   \<and> list_all (\<lambda>m. \<not> isThinking m)
        (messages (handleSubmit_resume noDateParse 200 (Rejected networkError)
           (userMessage 100 ''do it'') (handleSubmit_begin noDateParse 100 readyState)))"
proof -
  let ?st = "handleSubmit_begin noDateParse 100 readyState"
  have t: "fst (submit_try (Rejected networkError) (userMessage 100 ''do it'') ?st)
      = Some networkError"
    by (simp add: submit_try_def)
  have s: "snd (submit_try (Rejected networkError) (userMessage 100 ''do it'') ?st) = ?st"
    by (simp add: submit_try_def)
  have l: "length (removeThinking (messages ?st)) < 50" by code_simp
  have d: "distinct (map id' (messages ?st))" by code_simp
  have u: "userMessage 100 ''do it'' \<in> set (messages ?st)" by code_simp
  have n: "\<not> isThinking (userMessage 100 ''do it'')" by (simp add: userMessage_def)
  have i: "id' (userMessage 100 ''do it'') \<noteq> id' (errorMessage 200 networkError)"
    by code_simp
  show ?thesis
    using failed_submission [OF t, of noDateParse 200] t s l d u n i by simp
qed

text \<open>
  C9. As stated (the cursor is the highest ordering key seen) the claim fails. An
  incremental poll that delivers one new event carrying the time 10 stores it with the
  ordering key 1000, the clock reading, and sets the cursor to 10, the time the response
  carried.
\<close>

theorem poll_cursor_counterexample:
  "request_since False
      (fetchAgentResponses noDateParse 1000 False (pollOf [rawItem ''r1'' 10]) readyState)
     = Some 10
   \<and> highestOrderingKey (messages
      (fetchAgentResponses noDateParse 1000 False (pollOf [rawItem ''r1'' 10]) readyState))
     = Some 1000"
  by code_simp

text \<open>
  C9, amended. After a successful poll of a live component that yields at least one
  normalized event and lists its most recent message first, the cursor, and so the
  \<^verbatim>\<open>since\<close> parameter of the next incremental request, is the most recent timestamp
  carried by the events of that response. Nothing is said of a response in another order.
\<close>

theorem poll_cursor:
  assumes j: "\<not> notJson ct" and na: "\<not> abortRef st"
    and n: "normalize P now data = first # rest"
    and newest: "\<forall>m\<in>set rest. getTime (timestamp m) \<le> getTime (timestamp first)"
  shows "request_since False (fetchAgentResponses P now isInitial (Response ct True (Inr data)) st)
           = mostRecentTimestamp (normalize P now data)
       \<and> mostRecentTimestamp (normalize P now data) = Some (getTime (timestamp first))
       \<and> timestamp first = JDate (getTime (timestamp first))"
proof -
  have "first \<in> set (normalize P now data)" using n by simp
  then have a: "timestamp first = JDate (getTime (timestamp first))" by (rule normalize_date)
  have b: "mostRecentTimestamp (normalize P now data) = Some (getTime (timestamp first))"
    using highestOrderingKey_first [OF newest] by (simp add: mostRecentTimestamp_def n)
  have "lastFetchTimeRef (fetchAgentResponses P now isInitial (Response ct True (Inr data)) st)
      = Some (getTime (timestamp first))"
    using n by (simp add: fetch_success_cursor [OF j na])
  then have "request_since False
      (fetchAgentResponses P now isInitial (Response ct True (Inr data)) st)
      = Some (getTime (timestamp first))"
    by (simp add: request_since_def)
  then show ?thesis using a b by simp
qed

theorem poll_cursor_witness:
  "\<not> notJson (Some ''application/json'')
   \<and> \<not> abortRef readyState
   \<and> normalize noDateParse 1000
        \<lparr>rb_detail = None,
         rb_messages = Some [Some (rawItem ''r2'' 20), Some (rawItem ''r1'' 10)]\<rparr>
       = [agentEvent ''r2'' 20 JUndefined, agentEvent ''r1'' 10 JUndefined]
   \<and> getTime (timestamp (agentEvent ''r1'' 10 JUndefined))
       \<le> getTime (timestamp (agentEvent ''r2'' 20 JUndefined))
   \<and> request_since False
        (fetchAgentResponses noDateParse 1000 False
           (Response (Some ''application/json'') True
              (Inr \<lparr>rb_detail = None,
                    rb_messages = Some [Some (rawItem ''r2'' 20), Some (rawItem ''r1'' 10)]\<rparr>))
           readyState)
       = Some 20
   \<and> mostRecentTimestamp
        (normalize noDateParse 1000
           \<lparr>rb_detail = None,
            rb_messages = Some [Some (rawItem ''r2'' 20), Some (rawItem ''r1'' 10)]\<rparr>)
       = Some 20"
proof -
  have a: "\<not> notJson (Some ''application/json'')" by code_simp
  have b: "\<not> abortRef readyState" by (simp add: readyState_def)
  have c: "normalize noDateParse 1000
        \<lparr>rb_detail = None,
         rb_messages = Some [Some (rawItem ''r2'' 20), Some (rawItem ''r1'' 10)]\<rparr>
       = agentEvent ''r2'' 20 JUndefined # [agentEvent ''r1'' 10 JUndefined]"
    by code_simp
  have d: "getTime (timestamp (agentEvent ''r2'' 20 JUndefined)) = 20"
    "getTime (timestamp (agentEvent ''r1'' 10 JUndefined)) = 10"
    by (simp_all add: agentEvent_def getTime_def)
  have e: "\<forall>m\<in>set [agentEvent ''r1'' 10 JUndefined].
      getTime (timestamp m) \<le> getTime (timestamp (agentEvent ''r2'' 20 JUndefined))"
    by (simp add: d)
  show ?thesis using poll_cursor [OF a b c e, of False] a b c d by simp
qed

text \<open>
  C10. An event whose \<open>taskId\<close> is absent or does not parse as an integer (the
  user's message, the "thinking" placeholder and the error event among them) has sort
  key 0. After a merge it stands before every event with a positive task key, and the
  retention window takes it first: no event with a positive task key is evicted while
  such an event is kept, and when the merged map holds 50 or more events with a positive
  task key, no such event is kept at all.
\<close>

theorem no_task_events_sort_first:
  "noTaskOrdinal (userMessage t0 txt) \<and> noTaskOrdinal (thinkingMessage t0)
   \<and> noTaskOrdinal (errorMessage t0 e)
   \<and> (noTaskOrdinal a \<longrightarrow> taskKey a = 0)
   \<and> (noTaskOrdinal a \<and> 0 < taskKey b \<and> incoming \<noteq> []
        \<and> i < length (upsertMessages P now incoming r prev)
        \<and> j < length (upsertMessages P now incoming r prev)
        \<and> upsertMessages P now incoming r prev ! j = a
        \<and> upsertMessages P now incoming r prev ! i = b
      \<longrightarrow> j < i)
   \<and> (noTaskOrdinal a \<and> 0 < taskKey b \<and> incoming \<noteq> []
        \<and> a \<in> set (upsertMessages P now incoming r prev)
        \<and> b \<in> set (map_values (merged P now incoming r prev))
      \<longrightarrow> b \<in> set (upsertMessages P now incoming r prev))
   \<and> (noTaskOrdinal a \<and> incoming \<noteq> []
        \<and> 50 \<le> length (filter (\<lambda>b. 0 < taskKey b)
                          (map_values (merged P now incoming r prev)))
      \<longrightarrow> a \<notin> set (upsertMessages P now incoming r prev))"
proof -
  have k0: "taskKey a = 0" if "noTaskOrdinal a" for a
    using that by (simp add: noTaskOrdinal_def taskKey_def)
  have c1: "noTaskOrdinal (userMessage t0 txt)"
    by (simp add: noTaskOrdinal_def userMessage_def)
  have c2: "noTaskOrdinal (thinkingMessage t0)"
    by (simp add: noTaskOrdinal_def thinkingMessage_def)
  have c3: "noTaskOrdinal (errorMessage t0 e)"
    by (simp add: noTaskOrdinal_def errorMessage_def)
  have c5: "j < i"
    if h: "noTaskOrdinal a" "0 < taskKey b" "incoming \<noteq> []"
      "i < length (upsertMessages P now incoming r prev)"
      "j < length (upsertMessages P now incoming r prev)"
      "upsertMessages P now incoming r prev ! j = a"
      "upsertMessages P now incoming r prev ! i = b"
  proof (rule sorted_nth_order [where f = taskKey])
    show "sorted (map taskKey (upsertMessages P now incoming r prev))"
      using h(3) by (rule sorted_upsertMessages)
    show "i < length (upsertMessages P now incoming r prev)" by (rule h(4))
    show "j < length (upsertMessages P now incoming r prev)" by (rule h(5))
    show "taskKey (upsertMessages P now incoming r prev ! j)
            < taskKey (upsertMessages P now incoming r prev ! i)"
      using h(1,2,6,7) k0 by simp
  qed
  have c6: "b \<in> set (upsertMessages P now incoming r prev)"
    if h: "noTaskOrdinal a" "0 < taskKey b" "incoming \<noteq> []"
      "a \<in> set (upsertMessages P now incoming r prev)"
      "b \<in> set (map_values (merged P now incoming r prev))"
  proof -
    let ?ys = "sortByTask (map_values (merged P now incoming r prev))"
    have eq: "upsertMessages P now incoming r prev = drop (length ?ys - 50) ?ys"
      using h(3) by (simp add: upsertMessages_nonempty slice_last_def)
    have "b \<in> set (drop (length ?ys - 50) ?ys)"
    proof (rule sorted_drop_keeps_larger [where f = taskKey and a = a])
      show "sorted (map taskKey ?ys)" by (rule sorted_sortByTask)
      show "a \<in> set (drop (length ?ys - 50) ?ys)" using h(4) eq by simp
      show "b \<in> set ?ys" using h(5) by (simp add: set_sortByTask)
      show "taskKey a < taskKey b" using h(1,2) k0 by simp
    qed
    then show ?thesis using eq by simp
  qed
  have c7: "a \<notin> set (upsertMessages P now incoming r prev)"
    if h: "noTaskOrdinal a" "incoming \<noteq> []"
      "50 \<le> length (filter (\<lambda>b. 0 < taskKey b)
                (map_values (merged P now incoming r prev)))"
    using h(2) k0 [OF h(1)] h(3) by (rule crowded_out)
  show ?thesis using k0 c1 c2 c3 c5 c6 c7 by blast
qed

theorem no_task_events_sort_first_witness:
  "noTaskOrdinal (userMessage 100 ''hi'')
   \<and> taskKey (userMessage 100 ''hi'') = 0
   \<and> 0 < taskKey (agentEvent ''m1'' 50 (JNum 3))
   \<and> upsertMessages noDateParse 200 [Some (agentEvent ''m1'' 50 (JNum 3))] False
        [userMessage 100 ''hi''] ! 0 = userMessage 100 ''hi''
   \<and> upsertMessages noDateParse 200 [Some (agentEvent ''m1'' 50 (JNum 3))] False
        [userMessage 100 ''hi''] ! 1 = agentEvent ''m1'' 50 (JNum 3)
   \<and> (0 :: nat) < 1
   \<and> userMessage 100 ''hi''
        \<in> set (upsertMessages noDateParse 200 [Some (agentEvent ''m1'' 50 (JNum 3))] False
                 [userMessage 100 ''hi''])
   \<and> agentEvent ''m1'' 50 (JNum 3)
        \<in> set (map_values (merged noDateParse 200 [Some (agentEvent ''m1'' 50 (JNum 3))] False
                 [userMessage 100 ''hi'']))
   \<and> agentEvent ''m1'' 50 (JNum 3)
        \<in> set (upsertMessages noDateParse 200 [Some (agentEvent ''m1'' 50 (JNum 3))] False
                 [userMessage 100 ''hi''])
   \<and> 50 \<le> length (filter (\<lambda>b. 0 < taskKey b)
        (map_values (merged noDateParse 200 [Some (userMessage 100 ''hi'')] False
           fullTask5Store)))
   \<and> userMessage 100 ''hi''
        \<in> set (map_values (merged noDateParse 200 [Some (userMessage 100 ''hi'')] False
                 fullTask5Store))
   \<and> userMessage 100 ''hi''
        \<notin> set (upsertMessages noDateParse 200 [Some (userMessage 100 ''hi'')] False
                 fullTask5Store)"
proof -
  have k: "0 < taskKey (agentEvent ''m1'' 50 (JNum 3))"
    by (simp add: taskKey_def agentEvent_def)
  have n: "noTaskOrdinal (userMessage 100 ''hi'')"
    by (simp add: noTaskOrdinal_def userMessage_def)
  have small:
    "taskKey (userMessage 100 ''hi'') = 0
     \<and> upsertMessages noDateParse 200 [Some (agentEvent ''m1'' 50 (JNum 3))] False
          [userMessage 100 ''hi''] ! 0 = userMessage 100 ''hi''
     \<and> upsertMessages noDateParse 200 [Some (agentEvent ''m1'' 50 (JNum 3))] False
          [userMessage 100 ''hi''] ! 1 = agentEvent ''m1'' 50 (JNum 3)
     \<and> (0 :: nat) < 1
     \<and> userMessage 100 ''hi''
          \<in> set (upsertMessages noDateParse 200 [Some (agentEvent ''m1'' 50 (JNum 3))] False
                   [userMessage 100 ''hi''])
     \<and> agentEvent ''m1'' 50 (JNum 3)
          \<in> set (map_values (merged noDateParse 200 [Some (agentEvent ''m1'' 50 (JNum 3))]
                   False [userMessage 100 ''hi'']))
     \<and> agentEvent ''m1'' 50 (JNum 3)
          \<in> set (upsertMessages noDateParse 200 [Some (agentEvent ''m1'' 50 (JNum 3))] False
                   [userMessage 100 ''hi''])"
    using no_task_events_sort_first [where a = "userMessage 100 ''hi''"
        and b = "agentEvent ''m1'' 50 (JNum 3)"
        and incoming = "[Some (agentEvent ''m1'' 50 (JNum 3))]" and i = 1 and j = 0
        and P = noDateParse and now = 200 and r = False and prev = "[userMessage 100 ''hi'']"]
      k n
    by (simp add: upsert_user_then_agent merged_user_then_agent)
  have full:
    "userMessage 100 ''hi''
        \<notin> set (upsertMessages noDateParse 200 [Some (userMessage 100 ''hi'')] False
                 fullTask5Store)"
    using no_task_events_sort_first [where a = "userMessage 100 ''hi''"
        and incoming = "[Some (userMessage 100 ''hi'')]"
        and P = noDateParse and now = 200 and r = False and prev = fullTask5Store]
      n full_store_crowded
    by simp
  show ?thesis using n k small full full_store_crowded full_store_holds_user by simp
qed

end
